theory Spec2Isabelle
  imports Main "HOL-Library.Log_Nat"
begin

section \<open>JavaScript numbers\<close>

text \<open>
  Every number of \<^verbatim>\<open>ImageProcessor.process\<close> is an IEEE-754 binary64 value. A finite
  binary64 value is a rational, so a number is modelled as a \<open>rat\<close>, and every inexact
  operator of the source (\<^verbatim>\<open>/\<close>, \<^verbatim>\<open>*\<close>, \<^verbatim>\<open>+\<close> on fractions) rounds its exact result
  with \<open>fl\<close>: round to nearest, ties to even, 53 significant bits. The exponent range is
  not modelled (no overflow to Infinity, no subnormals): with image sizes and targets
  that a canvas can have, no quantity of \<open>process\<close> leaves the normal range. NaN and
  Infinity are not numbers of the model; the only place where the source meets them
  for a decoded image of positive size is a target that \<^verbatim>\<open>parseInt\<close> could not read,
  which \<open>optnum\<close> below represents.
\<close>

type_synonym number = rat

definition pow2 :: "int \<Rightarrow> rat" where
  "pow2 e = (if 0 \<le> e then 2 ^ nat e else 1 / 2 ^ nat (- e))"

text \<open>\<open>ilog2 x\<close> is the binade of a positive \<open>x\<close>: the \<open>e\<close> with \<open>2^e \<le> x < 2^(e+1)\<close>.\<close>

definition ilog2 :: "rat \<Rightarrow> int" where
  "ilog2 x = (case quotient_of x of (p, q) \<Rightarrow>
     (let d = bitlen p - bitlen q in if pow2 d \<le> x then d else d - 1))"

definition round_even :: "rat \<Rightarrow> int" where
  "round_even m = (let f = \<lfloor>m\<rfloor>; d = m - of_int f in
     if d < 1 / 2 then f else if 1 / 2 < d then f + 1 else if even f then f else f + 1)"

definition fl_mag :: "rat \<Rightarrow> rat" where
  "fl_mag a = (if a = 0 then 0 else
     (let ulp = pow2 (ilog2 a - 52) in of_int (round_even (a / ulp)) * ulp))"

definition fl :: "rat \<Rightarrow> number" where
  "fl x = (if x < 0 then - fl_mag (- x) else fl_mag x)"

text \<open>The unit roundoff of binary64.\<close>

definition eps :: rat where
  "eps = 1 / 2 ^ 53"

definition js_div :: "number \<Rightarrow> number \<Rightarrow> number" where
  "js_div a b = fl (a / b)"

definition js_mul :: "number \<Rightarrow> number \<Rightarrow> number" where
  "js_mul a b = fl (a * b)"

definition js_add :: "number \<Rightarrow> number \<Rightarrow> number" where
  "js_add a b = fl (a + b)"

text \<open>\<^verbatim>\<open>Math.round\<close>: the nearest integer, a tie going up.\<close>

definition math_round :: "number \<Rightarrow> int" where
  "math_round x = \<lfloor>x + 1 / 2\<rfloor>"

text \<open>\<^verbatim>\<open>a % b\<close> on integers: the remainder of the truncating division, with the sign of \<open>a\<close>.\<close>

definition js_rem :: "int \<Rightarrow> int \<Rightarrow> int" where
  "js_rem a b = sgn a * (\<bar>a\<bar> mod \<bar>b\<bar>)"

text \<open>The literals \<^verbatim>\<open>0.95\<close> and \<^verbatim>\<open>0.01\<close>, and \<^verbatim>\<open>Math.PI\<close> (exactly this binary64 value).\<close>

definition q095 :: number where
  "q095 = fl (95 / 100)"

definition q001 :: number where
  "q001 = fl (1 / 100)"

definition math_pi :: number where
  "math_pi = 884279719003555 / 281474976710656"

text \<open>
  A value that is a number or is missing: \<^verbatim>\<open>targetWidth\<close>, \<^verbatim>\<open>targetHeight\<close> and
  \<^verbatim>\<open>maxSizeBytes\<close> start as \<^verbatim>\<open>null\<close> in \<^verbatim>\<open>AppController.state\<close>, and
  \<^verbatim>\<open>parseInt\<close> gives an integer or NaN. \<open>truthy\<close> is the test of \<^verbatim>\<open>&& targetWidth\<close> and
  of \<^verbatim>\<open>!options.maxSizeBytes\<close>.
\<close>

datatype optnum = Null | NaN | Num int

fun truthy :: "optnum \<Rightarrow> bool" where
  "truthy Null = False"
| "truthy NaN = False"
| "truthy (Num n) = (n \<noteq> 0)"

text \<open>The numeric value, read only behind a \<open>truthy\<close> test.\<close>

fun num_of :: "optnum \<Rightarrow> number" where
  "num_of (Num n) = of_int n"
| "num_of Null = 0"
| "num_of NaN = 0"

section \<open>The data of \<^verbatim>\<open>ImageProcessor.process\<close>\<close>

text \<open>
  A decoded \<^verbatim>\<open>HTMLImageElement\<close>: its size and the URL of its picture. Widths, heights,
  targets and sizes are integers, far below \<open>2^53\<close> in the browser, and binary64 holds
  them exactly: they enter the arithmetic by \<open>of_int\<close>, unrounded.
\<close>

record image =
  width :: int
  height :: int
  src :: string

text \<open>
  A \<^verbatim>\<open>File\<close>: \<open>decoded\<close> is what \<^verbatim>\<open>loadImage\<close> does with it, \<open>None\<close> when the browser
  raises \<^verbatim>\<open>onerror\<close> and the promise is rejected.
\<close>

record jsfile =
  name :: string
  ftype :: string
  decoded :: "image option"

record options =
  orientation :: int
  manualRotation :: int
  resizeMode :: string
  targetWidth :: optnum
  targetHeight :: optnum
  maxSizeBytes :: optnum
  exportFormat :: string

text \<open>
  The canvas: the numbers assigned to \<^verbatim>\<open>canvas.width\<close> and \<^verbatim>\<open>canvas.height\<close>, and the calls
  made on its 2D context, in order.
\<close>

datatype draw_op =
    Save
  | Translate number number
  | Rotate number
  | Scale number number
  | DrawImage image number number
  | Restore

record canvas =
  cwidth :: int
  cheight :: int
  ops :: "draw_op list"

type_synonym blob = "nat list"

definition blob_size :: "blob \<Rightarrow> number" where
  "blob_size b = of_nat (length b)"

text \<open>
  \<^verbatim>\<open>canvas.toBlob(res, mimeType, q)\<close> is the browser's encoder: a parameter of the model,
  giving the bytes, or \<open>None\<close> when the callback receives \<^verbatim>\<open>null\<close>.
\<close>

type_synonym encoder = "canvas \<Rightarrow> string \<Rightarrow> number \<Rightarrow> blob option"

text \<open>
  How the promise of the encoding step ends. Its executor is an \<^verbatim>\<open>async\<close> function that
  only ever calls \<^verbatim>\<open>resolve\<close>: reading \<^verbatim>\<open>.size\<close> of a \<^verbatim>\<open>null\<close> blob throws inside it, and
  the promise then stays pending for ever.
\<close>

datatype settle = Resolved "blob option" | NeverSettles

record encoding =
  encodes :: "number list"
  outcome :: settle

datatype error = ImageLoadError

record run =
  canvas :: canvas
  totalDeg :: int
  mimeType :: string
  encoding :: encoding

section \<open>\<^verbatim>\<open>ImageProcessor.process\<close>\<close>

text \<open>Lines 336-348: the MIME type.\<close>

definition resolve_mime :: "jsfile \<Rightarrow> options \<Rightarrow> string" where
  "resolve_mime f opts =
     (if exportFormat opts = ''png'' then ''image/png''
      else if exportFormat opts = ''jpeg'' then ''image/jpeg''
      else if truthy (maxSizeBytes opts) then ''image/jpeg''
      else if ftype f = ''image/png'' then ''image/png'' else ''image/jpeg'')"

text \<open>Lines 374-380: \<^verbatim>\<open>uprightW\<close>, \<^verbatim>\<open>uprightH\<close>.\<close>

definition upright :: "image \<Rightarrow> options \<Rightarrow> int \<times> int" where
  "upright img opts =
     (let uprightW = (if 5 \<le> orientation opts \<and> orientation opts \<le> 8
                      then height img else width img);
          uprightH = (if 5 \<le> orientation opts \<and> orientation opts \<le> 8
                      then width img else height img)
      in if manualRotation opts = 90 \<or> manualRotation opts = 270
         then (uprightH, uprightW) else (uprightW, uprightH))"

text \<open>Lines 383-403: \<^verbatim>\<open>finalW\<close>, \<^verbatim>\<open>finalH\<close>.\<close>

definition resize :: "options \<Rightarrow> int \<times> int \<Rightarrow> number \<times> number" where
  "resize opts u =
     (let uprightW = of_int (fst u); uprightH = of_int (snd u);
          tw = targetWidth opts; th = targetHeight opts
      in if resizeMode opts = ''width'' \<and> truthy tw
           then (num_of tw, js_mul (js_div uprightH uprightW) (num_of tw))
         else if resizeMode opts = ''height'' \<and> truthy th
           then (js_mul (js_div uprightW uprightH) (num_of th), num_of th)
         else if resizeMode opts = ''both-fit'' \<and> truthy tw \<and> truthy th
           then (let ratio = min (js_div (num_of tw) uprightW) (js_div (num_of th) uprightH)
                 in (js_mul uprightW ratio, js_mul uprightH ratio))
         else if resizeMode opts = ''both-force'' \<and> truthy tw \<and> truthy th
           then (num_of tw, num_of th)
         else (uprightW, uprightH))"

definition final_dims :: "image \<Rightarrow> options \<Rightarrow> int \<times> int" where
  "final_dims img opts =
     (let r = resize opts (upright img opts) in (math_round (fst r), math_round (snd r)))"

text \<open>
  Lines 416-426: \<^verbatim>\<open>exifDeg\<close> (the \<^verbatim>\<open>switch\<close> has the cases 3, 6 and 8 only) and
  \<^verbatim>\<open>totalDeg\<close>.
\<close>

definition exifDeg :: "int \<Rightarrow> int" where
  "exifDeg ori = (if ori = 3 then 180 else if ori = 6 then 90 else if ori = 8 then 270 else 0)"

definition total_deg :: "options \<Rightarrow> int" where
  "total_deg opts = js_rem (exifDeg (orientation opts) + manualRotation opts) 360"

text \<open>Lines 406-459: the canvas is sized and the image drawn.\<close>

definition draw :: "image \<Rightarrow> options \<Rightarrow> canvas" where
  "draw img opts =
     (let finalW = fst (final_dims img opts); finalH = snd (final_dims img opts);
          deg = total_deg opts; w = of_int (width img); h = of_int (height img)
      in \<lparr>cwidth = finalW, cheight = finalH,
          ops = [Save,
                 Translate (js_div (of_int finalW) 2) (js_div (of_int finalH) 2),
                 Rotate (js_div (js_mul (of_int deg) math_pi) 180),
                 (if deg = 90 \<or> deg = 270
                  then Scale (js_div (of_int finalH) w) (js_div (of_int finalW) h)
                  else Scale (js_div (of_int finalW) w) (js_div (of_int finalH) h)),
                 DrawImage img (js_div (- w) 2) (js_div (- h) 2),
                 Restore]\<rparr>)"

text \<open>
  Lines 490-510: the \<^verbatim>\<open>while (attempts < 10)\<close> loop and what follows it. Each call of
  \<^verbatim>\<open>getBlob\<close> is recorded in \<open>encodes\<close>.
\<close>

definition add_encode :: "number \<Rightarrow> encoding \<Rightarrow> encoding" where
  "add_encode q e = e\<lparr>encodes := q # encodes e\<rparr>"

function search ::
  "(number \<Rightarrow> blob option) \<Rightarrow> number \<Rightarrow> nat \<Rightarrow> number \<Rightarrow> number \<Rightarrow> blob option \<Rightarrow> encoding" where
  "search getBlob maxSize attempts minQ maxQ bestBlob =
     (if attempts < 10 then
        (let midQ = js_div (js_add minQ maxQ) 2 in
         case getBlob midQ of
           None \<Rightarrow> \<lparr>encodes = [midQ], outcome = NeverSettles\<rparr>
         | Some blob \<Rightarrow>
             add_encode midQ
               (if blob_size blob \<le> maxSize
                then search getBlob maxSize (attempts + 1) midQ maxQ (Some blob)
                else search getBlob maxSize (attempts + 1) minQ midQ bestBlob))
      else
        (case bestBlob of
           Some best \<Rightarrow> \<lparr>encodes = [], outcome = Resolved (Some best)\<rparr>
         | None \<Rightarrow>
             (case getBlob q001 of
                None \<Rightarrow> \<lparr>encodes = [q001], outcome = NeverSettles\<rparr>
              | Some minBlob \<Rightarrow> \<lparr>encodes = [q001], outcome = Resolved (Some minBlob)\<rparr>)))"
  by pat_completeness auto
termination
  by (relation "measure (\<lambda>(getBlob, maxSize, attempts, minQ, maxQ, bestBlob). 10 - attempts)") auto

declare search.simps [simp del]

text \<open>Lines 461-511: the encoding step.\<close>

definition encode :: "(number \<Rightarrow> blob option) \<Rightarrow> string \<Rightarrow> optnum \<Rightarrow> encoding" where
  "encode getBlob mime maxSize =
     (if \<not> truthy maxSize \<or> mime = ''image/png''
      then \<lparr>encodes = [q095], outcome = Resolved (getBlob q095)\<rparr>
      else
        (case getBlob 1 of
           None \<Rightarrow> \<lparr>encodes = [1], outcome = NeverSettles\<rparr>
         | Some maxBlob \<Rightarrow>
             add_encode 1
               (if blob_size maxBlob \<le> num_of maxSize
                then \<lparr>encodes = [], outcome = Resolved (Some maxBlob)\<rparr>
                else search getBlob (num_of maxSize) 0 q001 1 None)))"

definition process :: "encoder \<Rightarrow> jsfile \<Rightarrow> options \<Rightarrow> error + run" where
  "process toBlob f opts =
     (case decoded f of
        None \<Rightarrow> Inl ImageLoadError
      | Some img \<Rightarrow>
          (let mime = resolve_mime f opts; cv = draw img opts
           in Inr \<lparr>canvas = cv, totalDeg = total_deg opts, mimeType = mime,
                   encoding = encode (toBlob cv mime) mime (maxSizeBytes opts)\<rparr>))"

section \<open>What a call shows\<close>

text \<open>
  What a call of \<open>process\<close> computes for the canvas: its width, its height and the
  net rotation.
\<close>

definition geometry :: "error + run \<Rightarrow> (int \<times> int \<times> int) option" where
  "geometry res = (case res of Inl e \<Rightarrow> None
     | Inr r \<Rightarrow> Some (cwidth (canvas r), cheight (canvas r), totalDeg r))"

text \<open>
  The promise that \<open>process\<close> returns, and the qualities at which a call encoded, in
  order.
\<close>

datatype promise = Fulfilled "blob option" | Rejected error | Pending

definition returned :: "error + run \<Rightarrow> promise" where
  "returned res = (case res of Inl e \<Rightarrow> Rejected e
     | Inr r \<Rightarrow> (case outcome (encoding r) of Resolved b \<Rightarrow> Fulfilled b | NeverSettles \<Rightarrow> Pending))"

definition qualities :: "error + run \<Rightarrow> number list" where
  "qualities res = (case res of Inl e \<Rightarrow> [] | Inr r \<Rightarrow> encodes (encoding r))"

section \<open>\<^verbatim>\<open>ImageProcessor.getOrientation\<close>\<close>

text \<open>
  Lines 266-293. The promise's executor runs at once: it calls \<^verbatim>\<open>EXIF.getData\<close> inside
  \<^verbatim>\<open>try\<close> and then registers the timer. What \<^verbatim>\<open>EXIF.getData\<close> (a library, not of this
  repository) does before it returns is \<open>getData\<close>: it throws, or it runs the callback at
  once, or it returns and the callback may come later. What happens afterwards is a list
  of events in the order in which the event loop runs them. \<open>resolved\<close> lists the values
  passed to \<^verbatim>\<open>resolve\<close>, \<open>timers\<close> the delays given to \<^verbatim>\<open>setTimeout\<close>, in milliseconds.
  The executor has no \<^verbatim>\<open>reject\<close>: the promise cannot be rejected.
\<close>

datatype getData = Throws | CallsBack "int option" | Returns

datatype event = ExifLoaded "int option" | TimerFired

record reader =
  accepted :: bool
  resolved :: "int list"
  timers :: "nat list"

definition safeResolve :: "int \<Rightarrow> reader \<Rightarrow> reader" where
  "safeResolve val s =
     (if \<not> accepted s then s\<lparr>accepted := True, resolved := resolved s @ [val]\<rparr> else s)"

text \<open>\<^verbatim>\<open>result || 1\<close>, where \<^verbatim>\<open>EXIF.getTag\<close> gave the tag's value or \<^verbatim>\<open>undefined\<close>.\<close>

fun or_one :: "int option \<Rightarrow> int" where
  "or_one None = 1"
| "or_one (Some v) = (if v \<noteq> 0 then v else 1)"

definition executor :: "getData \<Rightarrow> reader" where
  "executor g =
     (let s0 = \<lparr>accepted = False, resolved = [], timers = []\<rparr>;
          s1 = (case g of
                  Throws \<Rightarrow> safeResolve 1 s0
                | CallsBack tag \<Rightarrow> safeResolve (or_one tag) s0
                | Returns \<Rightarrow> s0)
      in s1\<lparr>timers := timers s1 @ [1500]\<rparr>)"

fun on_event :: "reader \<Rightarrow> event \<Rightarrow> reader" where
  "on_event s (ExifLoaded tag) = safeResolve (or_one tag) s"
| "on_event s TimerFired = (if \<not> accepted s then safeResolve 1 s else s)"

definition getOrientation :: "getData \<Rightarrow> event list \<Rightarrow> reader" where
  "getOrientation g evs = foldl on_event (executor g) evs"

section \<open>The statements to compare with\<close>

text \<open>
  The orientation-rotation of the specification's step 1: code 1 gives 0, 3 gives 180,
  6 gives 90, 8 gives 270, and 2, 4, 5, 7 give 0.
\<close>

definition orientationRotation :: "int \<Rightarrow> int" where
  "orientationRotation c =
     (if c = 3 then 180 else if c = 6 then 90 else if c = 8 then 270 else 0)"

text \<open>
  The valid inputs of the specification: a source of positive size, an orientation code
  from 1 to 8, a manual rotation by a quarter turn, and positive targets for the
  active resize policy.
\<close>

definition positive :: "optnum \<Rightarrow> bool" where
  "positive t = (case t of Num n \<Rightarrow> 0 < n | _ \<Rightarrow> False)"

definition valid_input :: "image \<Rightarrow> options \<Rightarrow> bool" where
  "valid_input img opts =
     (0 < width img \<and> 0 < height img
      \<and> 1 \<le> orientation opts \<and> orientation opts \<le> 8
      \<and> manualRotation opts \<in> {0, 90, 180, 270}
      \<and> (resizeMode opts = ''width'' \<longrightarrow> positive (targetWidth opts))
      \<and> (resizeMode opts = ''height'' \<longrightarrow> positive (targetHeight opts))
      \<and> (resizeMode opts = ''both-fit'' \<or> resizeMode opts = ''both-force''
           \<longrightarrow> positive (targetWidth opts) \<and> positive (targetHeight opts)))"

text \<open>
  The specification's step 4 in exact arithmetic, before any rounding: what each resize
  policy asks for, on the upright size \<open>u\<close>.
\<close>

definition exact_resize :: "options \<Rightarrow> int \<times> int \<Rightarrow> rat \<times> rat" where
  "exact_resize opts u =
     (let uprightW = of_int (fst u); uprightH = of_int (snd u);
          tw = num_of (targetWidth opts); th = num_of (targetHeight opts)
      in if resizeMode opts = ''width'' then (tw, uprightH * tw / uprightW)
         else if resizeMode opts = ''height'' then (uprightW * th / uprightH, th)
         else if resizeMode opts = ''both-fit''
           then (let scale = min (tw / uprightW) (th / uprightH)
                 in (uprightW * scale, uprightH * scale))
         else if resizeMode opts = ''both-force'' then (tw, th)
         else (uprightW, uprightH))"

text \<open>
  A resize policy is chosen but a target it needs is \<^verbatim>\<open>null\<close>, NaN or 0.
\<close>

definition target_missing :: "options \<Rightarrow> bool" where
  "target_missing opts =
     ((resizeMode opts = ''width'' \<and> \<not> truthy (targetWidth opts))
      \<or> (resizeMode opts = ''height'' \<and> \<not> truthy (targetHeight opts))
      \<or> ((resizeMode opts = ''both-fit'' \<or> resizeMode opts = ''both-force'')
          \<and> \<not> (truthy (targetWidth opts) \<and> truthy (targetHeight opts))))"

text \<open>
  The search as the specification words it: \<open>k\<close> steps on the bounds \<open>lo\<close> and \<open>hi\<close>; each
  step probes the midpoint; a probe that is \<open>ok\<close> (its size fits the ceiling) becomes the
  best candidate and the new lower bound, any other becomes the new upper bound. The
  result is the list of the probes and the last candidate recorded.
\<close>

fun bisect ::
  "(number \<Rightarrow> bool) \<Rightarrow> nat \<Rightarrow> number \<Rightarrow> number \<Rightarrow> number option \<Rightarrow> number list \<times> number option" where
  "bisect ok 0 lo hi best = ([], best)"
| "bisect ok (Suc k) lo hi best =
     (let mid = js_div (js_add lo hi) 2;
          rest = (if ok mid then bisect ok k mid hi (Some mid) else bisect ok k lo mid best)
      in (mid # fst rest, snd rest))"

definition fits :: "(number \<Rightarrow> blob option) \<Rightarrow> number \<Rightarrow> number \<Rightarrow> bool" where
  "fits getBlob limit q = (case getBlob q of None \<Rightarrow> False | Some b \<Rightarrow> blob_size b \<le> limit)"

text \<open>
  The first completion of the race in \<open>getOrientation\<close>: a throw or a callback inside
  \<^verbatim>\<open>EXIF.getData\<close> comes before everything else; otherwise the first event decides.
\<close>

fun first_completion :: "getData \<Rightarrow> event list \<Rightarrow> int option" where
  "first_completion Throws evs = Some 1"
| "first_completion (CallsBack tag) evs = Some (or_one tag)"
| "first_completion Returns [] = None"
| "first_completion Returns (ExifLoaded tag # evs) = Some (or_one tag)"
| "first_completion Returns (TimerFired # evs) = Some 1"

section \<open>Concrete inputs\<close>

text \<open>A 4000 by 3000 photograph, and the options \<^verbatim>\<open>AppController\<close> starts with.\<close>

definition photo :: image where
  "photo = \<lparr>width = 4000, height = 3000, src = ''blob:photo''\<rparr>"

definition photo_file :: jsfile where
  "photo_file = \<lparr>name = ''photo.jpg'', ftype = ''image/jpeg'', decoded = Some photo\<rparr>"

definition defaults :: options where
  "defaults = \<lparr>orientation = 1, manualRotation = 0, resizeMode = ''none'',
     targetWidth = Null, targetHeight = Null, maxSizeBytes = Null, exportFormat = ''auto''\<rparr>"

text \<open>A strip of 10000 by 1 pixels, and one of 1541 by 1.\<close>

definition strip :: image where
  "strip = \<lparr>width = 10000, height = 1, src = ''blob:strip''\<rparr>"

definition strip_file :: jsfile where
  "strip_file = \<lparr>name = ''strip.png'', ftype = ''image/png'', decoded = Some strip\<rparr>"

definition band :: image where
  "band = \<lparr>width = 1541, height = 1, src = ''blob:band''\<rparr>"

definition band_file :: jsfile where
  "band_file = \<lparr>name = ''band.png'', ftype = ''image/png'', decoded = Some band\<rparr>"

text \<open>
  Two encoders: one whose output has \<open>n\<close> bytes whatever the quality, one whose output
  grows with the quality (1000 bytes at quality 1).
\<close>

definition flat_encoder :: "nat \<Rightarrow> encoder" where
  "flat_encoder n cv mime q = Some (replicate n 0)"

definition linear_encoder :: encoder where
  "linear_encoder cv mime q = Some (replicate (nat \<lfloor>q * 1000\<rfloor>) 0)"

section \<open>Rounding\<close>

text \<open>
  The binade is exact, and \<open>fl\<close> moves a number by at most half a unit in the last
  place: a relative error of at most \<open>eps\<close>.
\<close>

lemma pow2_pos: "0 < pow2 e"
  by (simp add: pow2_def)

lemma pow2_powi: "pow2 e = 2 powi e"
  by (simp add: pow2_def power_int_def field_simps)

lemma pow2_diff_52: "pow2 (e - 52) = pow2 e / 2 ^ 52"
  by (simp add: pow2_powi power_int_diff)

lemma quotient_of_pos:
  assumes "0 < x" and pq: "quotient_of x = (p, q)"
  shows "0 < p" and "0 < q" and "x = of_int p / of_int q"
proof -
  show q: "0 < q" using pq by (rule quotient_of_denom_pos)
  show x: "x = of_int p / of_int q" using pq by (rule quotient_of_div)
  show "0 < p" using assms(1) q x by (simp add: zero_less_divide_iff)
qed

lemma bitlen_pow2_le: assumes "0 < n" shows "pow2 (bitlen n - 1) \<le> of_int n"
proof -
  have b: "1 \<le> bitlen n"
    using assms bitlen_eq_zero_iff[of n] bitlen_nonneg[of n] by linarith
  have "(2::int) ^ nat (bitlen n - 1) \<le> n" using bitlen_bounds[OF assms] by simp
  then have "(of_int ((2::int) ^ nat (bitlen n - 1)) :: rat) \<le> of_int n"
    by (simp only: of_int_le_iff)
  then show ?thesis using b by (simp add: pow2_def)
qed

lemma bitlen_less_pow2: assumes "0 < n" shows "of_int n < pow2 (bitlen n)"
proof -
  have b: "1 \<le> bitlen n"
    using assms bitlen_eq_zero_iff[of n] bitlen_nonneg[of n] by linarith
  have "n < (2::int) ^ nat (bitlen n)" using bitlen_bounds[OF assms] by simp
  then have "(of_int n :: rat) < of_int ((2::int) ^ nat (bitlen n))"
    by (simp only: of_int_less_iff)
  then show ?thesis using b by (simp add: pow2_def)
qed

lemma ilog2_lower: assumes "0 < x" shows "pow2 (ilog2 x) \<le> x"
proof -
  obtain p q where pq: "quotient_of x = (p, q)" by (cases "quotient_of x")
  note f = quotient_of_pos[OF assms pq]
  let ?d = "bitlen p - bitlen q"
  show ?thesis
  proof (cases "pow2 ?d \<le> x")
    case True
    then show ?thesis by (simp add: ilog2_def pq)
  next
    case False
    have "pow2 (?d - 1) = pow2 (bitlen p - 1) / pow2 (bitlen q)"
      by (simp add: pow2_powi power_int_diff)
    also have "\<dots> \<le> of_int p / pow2 (bitlen q)"
      using bitlen_pow2_le[OF f(1)] pow2_pos[of "bitlen q"] by (simp add: divide_right_mono)
    also have "\<dots> \<le> of_int p / of_int q"
      using bitlen_less_pow2[OF f(2)] f(1,2) by (simp add: frac_le)
    finally have "pow2 (?d - 1) \<le> x" using f(3) by simp
    then show ?thesis using False by (simp add: ilog2_def pq)
  qed
qed

lemma ilog2_upper: assumes "0 < x" shows "x < pow2 (ilog2 x + 1)"
proof -
  obtain p q where pq: "quotient_of x = (p, q)" by (cases "quotient_of x")
  note f = quotient_of_pos[OF assms pq]
  let ?d = "bitlen p - bitlen q"
  show ?thesis
  proof (cases "pow2 ?d \<le> x")
    case False
    then show ?thesis by (simp add: ilog2_def pq)
  next
    case True
    have "x = of_int p / of_int q" by (rule f(3))
    also have "\<dots> < pow2 (bitlen p) / of_int q"
      using bitlen_less_pow2[OF f(1)] f(2) by (simp add: divide_strict_right_mono)
    also have "\<dots> \<le> pow2 (bitlen p) / pow2 (bitlen q - 1)"
      using bitlen_pow2_le[OF f(2)] pow2_pos[of "bitlen q - 1"] pow2_pos[of "bitlen p"]
      by (simp add: frac_le)
    also have "\<dots> = pow2 (?d + 1)"
      by (simp add: pow2_powi power_int_diff power_int_add)
    finally show ?thesis using True by (simp add: ilog2_def pq)
  qed
qed

lemma round_even_err: "\<bar>of_int (round_even m) - m\<bar> \<le> 1 / 2"
proof -
  have "of_int \<lfloor>m\<rfloor> \<le> m" "m < of_int \<lfloor>m\<rfloor> + 1" by linarith+
  then show ?thesis
    unfolding round_even_def Let_def by (simp add: abs_if) linarith
qed

lemma round_even_nonneg: "0 \<le> m \<Longrightarrow> 0 \<le> round_even m"
  by (auto simp: round_even_def Let_def)

lemma fl_mag_err: assumes "0 \<le> a" shows "\<bar>fl_mag a - a\<bar> \<le> a / 2 ^ 53"
proof (cases "a = 0")
  case True
  then show ?thesis by (simp add: fl_mag_def)
next
  case False
  define u where "u = pow2 (ilog2 a - 52)"
  define r where "r = round_even (a / u)"
  have u: "0 < u" by (simp add: u_def pow2_pos)
  have ax: "0 < a" using False assms by simp
  have ule: "u \<le> a / 2 ^ 52"
    using ilog2_lower[OF ax] by (simp add: u_def pow2_diff_52 divide_right_mono)
  have fl: "fl_mag a = of_int r * u"
    using False by (simp add: fl_mag_def Let_def u_def r_def)
  have "of_int r * u - a = (of_int r - a / u) * u"
    using u by (simp add: left_diff_distrib)
  then have "\<bar>fl_mag a - a\<bar> = \<bar>of_int r - a / u\<bar> * u"
    using u by (simp add: fl abs_mult)
  also have "\<dots> \<le> 1 / 2 * u"
    using round_even_err[of "a / u"] u unfolding r_def
    by (intro mult_right_mono) simp_all
  also have "\<dots> \<le> 1 / 2 * (a / 2 ^ 52)" using ule by simp
  finally show ?thesis by simp
qed

lemma fl_mag_nonneg: "0 \<le> a \<Longrightarrow> 0 \<le> fl_mag a"
  by (simp add: fl_mag_def Let_def round_even_nonneg pow2_pos less_imp_le)

lemma fl_abs_err: "\<bar>fl x - x\<bar> \<le> \<bar>x\<bar> / 2 ^ 53"
proof (cases "x < 0")
  case True
  then show ?thesis using fl_mag_err[of "- x"] by (simp add: fl_def abs_if split: if_splits)
next
  case False
  then show ?thesis using fl_mag_err[of x] by (simp add: fl_def)
qed

lemma fl_nonneg: "0 \<le> x \<Longrightarrow> 0 \<le> fl x"
  by (simp add: fl_def fl_mag_nonneg)

lemma fl_upper: assumes "0 \<le> x" shows "fl x \<le> x * (1 + eps)"
proof -
  define d where "d = x / 2 ^ 53"
  have "\<bar>fl x - x\<bar> \<le> d" using fl_abs_err[of x] assms by (simp add: d_def)
  then have "fl x \<le> x + d" by linarith
  also have "x + d = x * (1 + eps)"
    unfolding d_def eps_def by (simp only: distrib_left mult_1_right times_divide_eq_right)
  finally show ?thesis .
qed

lemma fl_lower: assumes "0 \<le> x" shows "x * (1 - eps) \<le> fl x"
proof -
  define d where "d = x / 2 ^ 53"
  have "\<bar>fl x - x\<bar> \<le> d" using fl_abs_err[of x] assms by (simp add: d_def)
  then have "x - d \<le> fl x" by linarith
  moreover have "x - d = x * (1 - eps)"
    unfolding d_def eps_def by (simp only: right_diff_distrib mult_1_right times_divide_eq_right)
  ultimately show ?thesis by simp
qed

lemma eps_bounds: "0 < eps" "eps < 1"
  by (simp_all add: eps_def)

text \<open>Two roundings in a row, as in \<^verbatim>\<open>(a / b) * c\<close>.\<close>

lemma fl2_upper:
  assumes "0 \<le> x" "0 \<le> c" shows "fl (fl x * c) \<le> x * c * ((1 + eps) * (1 + eps))"
proof -
  have a: "fl x \<le> x * (1 + eps)" using assms by (simp add: fl_upper)
  have "fl (fl x * c) \<le> fl x * c * (1 + eps)"
    using assms by (simp add: fl_upper fl_nonneg)
  also have "\<dots> \<le> x * (1 + eps) * c * (1 + eps)"
    using a assms eps_bounds by (intro mult_right_mono) simp_all
  finally show ?thesis by (simp add: mult_ac)
qed

lemma fl2_lower:
  assumes "0 \<le> x" "0 \<le> c" shows "x * c * ((1 - eps) * (1 - eps)) \<le> fl (fl x * c)"
proof -
  have a: "x * (1 - eps) \<le> fl x" using assms by (simp add: fl_lower)
  have "x * (1 - eps) * c * (1 - eps) \<le> fl x * c * (1 - eps)"
    using a assms eps_bounds by (intro mult_right_mono) simp_all
  also have "\<dots> \<le> fl (fl x * c)"
    using assms by (simp add: fl_lower fl_nonneg)
  finally show ?thesis by (simp add: mult_ac)
qed

lemma math_round_eqI: "of_int n - 1 / 2 \<le> x \<Longrightarrow> x < of_int n + 1 / 2 \<Longrightarrow> math_round x = n"
  unfolding math_round_def by (rule floor_unique) simp_all

lemma math_round_of_int: "math_round (of_int n) = n"
  by (rule math_round_eqI) simp_all

section \<open>Exact values of the rounding\<close>

text \<open>
  For a concrete number the binade is checked, not searched, and \<open>fl\<close> is computed from
  it.
\<close>

lemma pow2_mono: "i \<le> j \<Longrightarrow> pow2 i \<le> pow2 j"
  by (simp add: pow2_powi power_int_increasing)

lemma ilog2_unique:
  assumes "pow2 e \<le> a" and "a < pow2 (e + 1)"
  shows "ilog2 a = e"
proof -
  have a: "0 < a" using assms(1) pow2_pos[of e] by linarith
  have "\<not> e + 1 \<le> ilog2 a"
  proof
    assume "e + 1 \<le> ilog2 a"
    then have "pow2 (e + 1) \<le> pow2 (ilog2 a)" by (rule pow2_mono)
    then show False using ilog2_lower[OF a] assms(2) by linarith
  qed
  moreover have "\<not> ilog2 a + 1 \<le> e"
  proof
    assume "ilog2 a + 1 \<le> e"
    then have "pow2 (ilog2 a + 1) \<le> pow2 e" by (rule pow2_mono)
    then show False using ilog2_upper[OF a] assms(1) by linarith
  qed
  ultimately show ?thesis by linarith
qed

lemma fl_eval:
  assumes "pow2 e \<le> a" and "a < pow2 (e + 1)"
  shows "fl a = of_int (round_even (a / pow2 (e - 52))) * pow2 (e - 52)"
proof -
  have a: "0 < a" using assms(1) pow2_pos[of e] by linarith
  show ?thesis using a by (simp add: fl_def fl_mag_def ilog2_unique[OF assms] Let_def)
qed

lemma round_even_eqI:
  assumes "of_int n - 1 / 2 < m" and "m < of_int n + 1 / 2"
  shows "round_even m = n"
proof -
  have f: "of_int \<lfloor>m\<rfloor> \<le> m" "m < of_int \<lfloor>m\<rfloor> + 1" by linarith+
  have "\<lfloor>m\<rfloor> = n \<or> \<lfloor>m\<rfloor> = n - 1" using assms by linarith
  then show ?thesis
  proof
    assume e: "\<lfloor>m\<rfloor> = n"
    then show ?thesis using assms by (simp add: round_even_def Let_def)
  next
    assume e: "\<lfloor>m\<rfloor> = n - 1"
    then have "1 / 2 < m - of_int (n - 1)" using assms by simp
    then show ?thesis using e by (simp add: round_even_def Let_def)
  qed
qed

lemma fl_eqI:
  assumes "pow2 e \<le> a" and "a < pow2 (e + 1)"
    and "of_int n - 1 / 2 < a / pow2 (e - 52)" and "a / pow2 (e - 52) < of_int n + 1 / 2"
  shows "fl a = of_int n * pow2 (e - 52)"
  by (simp add: fl_eval[OF assms(1,2)] round_even_eqI[OF assms(3,4)])

section \<open>Order and representable numbers\<close>

text \<open>
  \<open>fl\<close> keeps the order of positive numbers and the numbers it produces are fixed points
  of it; halving and doubling are exact.
\<close>

lemma pow2_succ: "pow2 (e + 1) = 2 * pow2 e"
  by (simp add: pow2_powi power_int_add)

lemma pow2_52: "pow2 e = 2 ^ 52 * pow2 (e - 52)"
  by (simp add: pow2_diff_52)

lemma round_even_mono: assumes "m \<le> m'" shows "round_even m \<le> round_even m'"
proof (cases "\<lfloor>m\<rfloor> = \<lfloor>m'\<rfloor>")
  case True
  then show ?thesis using assms by (auto simp: round_even_def Let_def)
next
  case False
  have "\<lfloor>m\<rfloor> \<le> \<lfloor>m'\<rfloor>" using assms by (rule floor_mono)
  then have "\<lfloor>m\<rfloor> + 1 \<le> \<lfloor>m'\<rfloor>" using False by simp
  moreover have "round_even m \<le> \<lfloor>m\<rfloor> + 1" by (simp add: round_even_def Let_def)
  moreover have "\<lfloor>m'\<rfloor> \<le> round_even m'" by (simp add: round_even_def Let_def)
  ultimately show ?thesis by linarith
qed

lemma round_even_of_int: "round_even (of_int n) = n"
  by (simp add: round_even_def)

lemma significand_bounds:
  assumes "0 < a"
  shows "2 ^ 52 \<le> round_even (a / pow2 (ilog2 a - 52))"
    and "round_even (a / pow2 (ilog2 a - 52)) \<le> 2 ^ 53"
proof -
  let ?u = "pow2 (ilog2 a - 52)"
  have u: "0 < ?u" by (rule pow2_pos)
  have "2 ^ 52 * ?u \<le> a" using ilog2_lower[OF assms] pow2_52[of "ilog2 a"] by simp
  then have "2 ^ 52 \<le> a / ?u" using u by (simp add: le_divide_eq)
  then have "round_even (of_int (2 ^ 52)) \<le> round_even (a / ?u)"
    by (intro round_even_mono) simp
  then show "2 ^ 52 \<le> round_even (a / ?u)" by (simp only: round_even_of_int)
  have "a < 2 * (2 ^ 52 * ?u)"
    using ilog2_upper[OF assms] pow2_52[of "ilog2 a"] by (simp add: pow2_succ)
  then have "a / ?u \<le> 2 ^ 53" using u by (simp add: divide_le_eq)
  then have "round_even (a / ?u) \<le> round_even (of_int (2 ^ 53))"
    by (intro round_even_mono) simp
  then show "round_even (a / ?u) \<le> 2 ^ 53" by (simp only: round_even_of_int)
qed

lemma fl_pos_eq: "0 < a \<Longrightarrow> fl a = of_int (round_even (a / pow2 (ilog2 a - 52))) * pow2 (ilog2 a - 52)"
  by (simp add: fl_def fl_mag_def Let_def)

lemma fl_binade:
  assumes "0 < a"
  shows "pow2 (ilog2 a) \<le> fl a" and "fl a \<le> pow2 (ilog2 a + 1)"
proof -
  let ?u = "pow2 (ilog2 a - 52)" and ?r = "round_even (a / pow2 (ilog2 a - 52))"
  have u: "0 < ?u" by (rule pow2_pos)
  have "(of_int (2 ^ 52) :: rat) \<le> of_int ?r"
    using significand_bounds(1)[OF assms] by (simp only: of_int_le_iff)
  then have "2 ^ 52 * ?u \<le> of_int ?r * ?u" using u by (intro mult_right_mono) simp_all
  then show "pow2 (ilog2 a) \<le> fl a"
    using pow2_52[of "ilog2 a"] by (simp add: fl_pos_eq[OF assms])
  have "(of_int ?r :: rat) \<le> of_int (2 ^ 53)"
    using significand_bounds(2)[OF assms] by (simp only: of_int_le_iff)
  then have "of_int ?r * ?u \<le> 2 ^ 53 * ?u" using u by (intro mult_right_mono) simp_all
  then show "fl a \<le> pow2 (ilog2 a + 1)"
    using pow2_52[of "ilog2 a"] by (simp add: fl_pos_eq[OF assms] pow2_succ)
qed

lemma fl_pos: "0 < a \<Longrightarrow> 0 < fl a"
  using fl_binade(1)[of a] pow2_pos[of "ilog2 a"] by linarith

lemma ilog2_mono:
  assumes "0 < x" and "x \<le> y" shows "ilog2 x \<le> ilog2 y"
proof (rule ccontr)
  assume "\<not> ilog2 x \<le> ilog2 y"
  then have "ilog2 y + 1 \<le> ilog2 x" by simp
  then have "pow2 (ilog2 y + 1) \<le> pow2 (ilog2 x)" by (rule pow2_mono)
  moreover have "0 < y" using assms by linarith
  ultimately show False using ilog2_lower[OF assms(1)] ilog2_upper[of y] assms(2) by linarith
qed

lemma fl_mono_pos:
  assumes "0 < x" and "x \<le> y" shows "fl x \<le> fl y"
proof -
  have y: "0 < y" using assms by linarith
  show ?thesis
  proof (cases "ilog2 x = ilog2 y")
    case True
    let ?u = "pow2 (ilog2 y - 52)"
    have u: "0 < ?u" by (rule pow2_pos)
    have "x / ?u \<le> y / ?u" using assms(2) u by (simp add: divide_right_mono)
    then have "round_even (x / ?u) \<le> round_even (y / ?u)" by (rule round_even_mono)
    then have "(of_int (round_even (x / ?u)) :: rat) \<le> of_int (round_even (y / ?u))"
      by (simp only: of_int_le_iff)
    then show ?thesis
      using u by (simp add: fl_pos_eq[OF assms(1)] fl_pos_eq[OF y] True mult_right_mono)
  next
    case False
    then have "ilog2 x + 1 \<le> ilog2 y" using ilog2_mono[OF assms] by simp
    then have "pow2 (ilog2 x + 1) \<le> pow2 (ilog2 y)" by (rule pow2_mono)
    then show ?thesis using fl_binade(2)[OF assms(1)] fl_binade(1)[OF y] by linarith
  qed
qed

lemma fl_representable:
  assumes "0 < a" shows "fl (fl a) = fl a"
proof -
  let ?e = "ilog2 a"
  let ?u = "pow2 (?e - 52)" and ?r = "round_even (a / pow2 (?e - 52))"
  have u: "0 < ?u" by (rule pow2_pos)
  have f: "fl a = of_int ?r * ?u" by (rule fl_pos_eq[OF assms])
  show ?thesis
  proof (cases "?r = 2 ^ 53")
    case True
    have v: "fl a = pow2 (?e + 1)"
      using pow2_52[of ?e] by (simp add: f True pow2_succ)
    have "fl (pow2 (?e + 1)) = of_int (2 ^ 52) * pow2 (?e + 1 - 52)"
    proof (rule fl_eqI)
      show "pow2 (?e + 1) \<le> pow2 (?e + 1)" by simp
      have "pow2 (?e + 1 + 1) = 2 * pow2 (?e + 1)" by (rule pow2_succ)
      then show "pow2 (?e + 1) < pow2 (?e + 1 + 1)" using pow2_pos[of "?e + 1"] by linarith
      have "pow2 (?e + 1) / pow2 (?e + 1 - 52) = 2 ^ 52"
        using pow2_pos[of "?e + 1 - 52"] pow2_52[of "?e + 1"] by simp
      then show "of_int (2 ^ 52) - 1 / 2 < pow2 (?e + 1) / pow2 (?e + 1 - 52)"
        and "pow2 (?e + 1) / pow2 (?e + 1 - 52) < of_int (2 ^ 52) + 1 / 2" by simp_all
    qed
    then show ?thesis using pow2_52[of "?e + 1"] by (simp add: v)
  next
    case False
    then have r: "?r < 2 ^ 53" using significand_bounds(2)[OF assms] by linarith
    have "fl (of_int ?r * ?u) = of_int ?r * pow2 (?e - 52)"
    proof (rule fl_eqI)
      show "pow2 ?e \<le> of_int ?r * ?u" using fl_binade(1)[OF assms] by (simp add: f)
      have "(of_int ?r :: rat) < of_int (2 ^ 53)" using r by (simp only: of_int_less_iff)
      then have "of_int ?r * ?u < 2 ^ 53 * ?u" using u by (intro mult_strict_right_mono) simp_all
      then show "of_int ?r * ?u < pow2 (?e + 1)" using pow2_52[of ?e] by (simp add: pow2_succ)
      have "of_int ?r * ?u / ?u = of_int ?r" using u by simp
      then show "of_int ?r - 1 / 2 < of_int ?r * ?u / pow2 (?e - 52)"
        and "of_int ?r * ?u / pow2 (?e - 52) < of_int ?r + 1 / 2" by simp_all
    qed
    then show ?thesis by (simp add: f)
  qed
qed

lemma ilog2_half: assumes "0 < a" shows "ilog2 (a / 2) = ilog2 a - 1"
proof (rule ilog2_unique)
  have "pow2 (ilog2 a - 1 + 1) = 2 * pow2 (ilog2 a - 1)" by (rule pow2_succ)
  then have h: "pow2 (ilog2 a - 1) = pow2 (ilog2 a) / 2" by simp
  show "pow2 (ilog2 a - 1) \<le> a / 2" using ilog2_lower[OF assms] by (simp add: h)
  show "a / 2 < pow2 (ilog2 a - 1 + 1)" using ilog2_upper[OF assms] by (simp add: pow2_succ)
qed

lemma fl_half: assumes "0 < a" shows "fl (a / 2) = fl a / 2"
proof -
  define u where "u = pow2 (ilog2 a - 52)"
  have h: "0 < a / 2" using assms by simp
  have up: "0 < u" unfolding u_def by (rule pow2_pos)
  have "pow2 (ilog2 a - 1 - 52 + 1) = 2 * pow2 (ilog2 a - 1 - 52)" by (rule pow2_succ)
  moreover have "ilog2 a - 1 - 52 + 1 = ilog2 a - 52" by simp
  ultimately have u2: "pow2 (ilog2 a - 1 - 52) = u / 2" by (simp add: u_def)
  have q: "a / 2 / (u / 2) = a / u" using up by simp
  have "fl (a / 2) = of_int (round_even (a / 2 / (u / 2))) * (u / 2)"
    unfolding fl_pos_eq[OF h] ilog2_half[OF assms] u2 ..
  also have "\<dots> = of_int (round_even (a / u)) * u / 2" unfolding q by simp
  also have "\<dots> = fl a / 2" unfolding fl_pos_eq[OF assms] u_def ..
  finally show ?thesis .
qed

lemma fl_double: assumes "0 < a" shows "fl (2 * a) = 2 * fl a"
  using fl_half[of "2 * a"] assms by simp

text \<open>
  The midpoint of the source, \<^verbatim>\<open>(minQ + maxQ) / 2\<close>: the sum is rounded, the halving is
  exact. It lies between the bounds and within \<open>eps\<close> of the exact midpoint.
\<close>

lemma midpoint_value: "0 < lo + hi \<Longrightarrow> js_div (js_add lo hi) 2 = fl (lo + hi) / 2"
  by (simp add: js_div_def js_add_def fl_half fl_pos fl_representable)

lemma midpoint_between:
  assumes "0 < lo" "lo \<le> hi" "fl lo = lo" "fl hi = hi"
  shows "lo \<le> js_div (js_add lo hi) 2" and "js_div (js_add lo hi) 2 \<le> hi"
    and "fl (js_div (js_add lo hi) 2) = js_div (js_add lo hi) 2"
proof -
  have s: "0 < lo + hi" and hi: "0 < hi" using assms by linarith+
  have m: "js_div (js_add lo hi) 2 = fl (lo + hi) / 2" by (rule midpoint_value[OF s])
  have "fl (2 * lo) \<le> fl (lo + hi)" using assms by (intro fl_mono_pos) simp_all
  then show "lo \<le> js_div (js_add lo hi) 2" using assms by (simp add: m fl_double)
  have "fl (lo + hi) \<le> fl (2 * hi)" using assms s by (intro fl_mono_pos) simp_all
  then show "js_div (js_add lo hi) 2 \<le> hi" using assms hi by (simp add: m fl_double)
  show "fl (js_div (js_add lo hi) 2) = js_div (js_add lo hi) 2"
    using s by (simp add: m fl_half fl_pos fl_representable)
qed

lemma midpoint_error:
  assumes "0 < lo + hi"
  shows "\<bar>js_div (js_add lo hi) 2 - (lo + hi) / 2\<bar> \<le> (lo + hi) / 2 * eps"
proof -
  have "\<bar>fl (lo + hi) - (lo + hi)\<bar> \<le> \<bar>lo + hi\<bar> / 2 ^ 53" by (rule fl_abs_err)
  then have "\<bar>fl (lo + hi) - (lo + hi)\<bar> / 2 \<le> (lo + hi) / 2 ^ 53 / 2" using assms by simp
  moreover have "\<bar>fl (lo + hi) / 2 - (lo + hi) / 2\<bar> = \<bar>fl (lo + hi) - (lo + hi)\<bar> / 2"
    by (simp flip: diff_divide_distrib)
  ultimately show ?thesis by (simp add: midpoint_value[OF assms] eps_def)
qed

lemma bisect_range:
  assumes "0 < lo" "lo \<le> hi" "fl lo = lo" "fl hi = hi"
  shows "\<forall>q \<in> set (fst (bisect ok k lo hi best)). lo \<le> q \<and> q \<le> hi"
  using assms
proof (induction k arbitrary: lo hi best)
  case 0
  then show ?case by simp
next
  case (Suc k)
  let ?mid = "js_div (js_add lo hi) 2"
  note m = midpoint_between[OF Suc.prems]
  have mp: "0 < ?mid" using m(1) Suc.prems(1) by linarith
  have up: "\<forall>q \<in> set (fst (bisect ok k ?mid hi (Some ?mid))). ?mid \<le> q \<and> q \<le> hi"
    by (rule Suc.IH[OF mp m(2) m(3) Suc.prems(4)])
  have dn: "\<forall>q \<in> set (fst (bisect ok k lo ?mid best)). lo \<le> q \<and> q \<le> ?mid"
    by (rule Suc.IH[OF Suc.prems(1) m(1) Suc.prems(3) m(3)])
  show ?case
    using up dn m(1,2) by (auto simp: Let_def)
qed

lemma fl_one: "fl 1 = 1"
  by (subst fl_eqI[where e = 0 and n = "2 ^ 52"]) (simp_all add: pow2_def)

lemma q001_bounds: "0 < q001" "q001 \<le> 1" "fl q001 = q001"
proof -
  show "0 < q001" unfolding q001_def by (rule fl_pos) simp
  have "fl (1 / 100) \<le> 1 / 100 * (1 + eps)" by (rule fl_upper) simp
  then show "q001 \<le> 1" by (simp add: q001_def eps_def)
  show "fl q001 = q001" unfolding q001_def by (rule fl_representable) simp
qed

text \<open>The two literals, as binary64 has them.\<close>

lemma q001_value: "q001 = 5764607523034235 / 2 ^ 59"
  unfolding q001_def
  by (subst fl_eqI[where e = "- 7" and n = 5764607523034235]) (simp_all add: pow2_def)

lemma q095_value: "q095 = 8556839292003942 / 2 ^ 53"
  unfolding q095_def
  by (subst fl_eqI[where e = "- 1" and n = 8556839292003942]) (simp_all add: pow2_def)

lemma probes_in_range:
  "\<forall>q \<in> set (fst (bisect ok k q001 1 best)). q001 \<le> q \<and> q \<le> 1"
  by (rule bisect_range[OF q001_bounds(1,2,3) fl_one])

section \<open>Geometry\<close>

lemma geometry_process:
  "decoded f = Some img \<Longrightarrow>
   geometry (process toBlob f opts) =
     Some (fst (final_dims img opts), snd (final_dims img opts), total_deg opts)"
  by (simp add: geometry_def process_def draw_def Let_def)

lemma upright_orientation:
  "ori \<notin> {5, 6, 7, 8} \<Longrightarrow> upright img (opts\<lparr>orientation := ori\<rparr>) = upright img (opts\<lparr>orientation := 1\<rparr>)"
  by (auto simp: upright_def Let_def)

lemma resize_orientation: "resize (opts\<lparr>orientation := ori\<rparr>) u = resize opts u"
  by (simp add: resize_def Let_def)

lemma final_dims_orientation:
  "ori \<notin> {5, 6, 7, 8} \<Longrightarrow> final_dims img (opts\<lparr>orientation := ori\<rparr>) = final_dims img (opts\<lparr>orientation := 1\<rparr>)"
  using upright_orientation[of ori img opts] by (simp add: final_dims_def resize_orientation)

lemma total_deg_orientation:
  "ori \<notin> {3, 6, 8} \<Longrightarrow> total_deg (opts\<lparr>orientation := ori\<rparr>) = total_deg (opts\<lparr>orientation := 1\<rparr>)"
  by (auto simp: total_deg_def exifDeg_def)

lemma draw_orientation:
  assumes "ori \<notin> {3, 5, 6, 7, 8}"
  shows "draw img (opts\<lparr>orientation := ori\<rparr>) = draw img (opts\<lparr>orientation := 1\<rparr>)"
proof -
  have a: "final_dims img (opts\<lparr>orientation := ori\<rparr>) = final_dims img (opts\<lparr>orientation := 1\<rparr>)"
    using assms by (intro final_dims_orientation) simp
  have b: "total_deg (opts\<lparr>orientation := ori\<rparr>) = total_deg (opts\<lparr>orientation := 1\<rparr>)"
    using assms by (intro total_deg_orientation) simp
  show ?thesis unfolding draw_def a b ..
qed

lemma resolve_mime_orientation: "resolve_mime f (opts\<lparr>orientation := ori\<rparr>) = resolve_mime f opts"
  by (simp add: resolve_mime_def)

lemma math_round_numeral: "math_round (numeral k) = numeral k"
  using math_round_of_int[of "numeral k"] by simp

lemma final_dims_none:
  "resizeMode opts = ''none'' \<Longrightarrow> final_dims img opts = upright img opts"
  by (simp add: final_dims_def resize_def Let_def math_round_of_int)

lemma js_rem_nonneg: "0 \<le> a \<Longrightarrow> js_rem a 360 = a mod 360"
  by (cases "a = 0") (simp_all add: js_rem_def)

lemma total_deg_mod:
  "0 \<le> manualRotation opts \<Longrightarrow>
   total_deg opts = (orientationRotation (orientation opts) + manualRotation opts) mod 360"
  by (simp add: total_deg_def exifDeg_def orientationRotation_def js_rem_nonneg)

lemma geometry_none:
  assumes "decoded f = Some img" and "resizeMode opts = ''none''" and "0 \<le> manualRotation opts"
  shows "geometry (process toBlob f opts) =
    Some (fst (upright img opts), snd (upright img opts),
          (orientationRotation (orientation opts) + manualRotation opts) mod 360)"
  using assms by (simp add: geometry_process final_dims_none total_deg_mod)

text \<open>
  Without resizing, and for the orientation codes that are not transposed (1, 2, 3, 4,
  6 and 8), the canvas has the source's width and height exchanged exactly when the net
  rotation is 90 or 270.
\<close>

lemma swap_iff_net_rotation:
  assumes "decoded f = Some img"
    and "orientation opts \<in> {1, 2, 3, 4, 6, 8}"
    and "manualRotation opts \<in> {0, 90, 180, 270}"
    and "resizeMode opts = ''none''"
  shows "geometry (process toBlob f opts) =
     (let net = (orientationRotation (orientation opts) + manualRotation opts) mod 360
      in if net = 90 \<or> net = 270 then Some (height img, width img, net)
         else Some (width img, height img, net))"
proof -
  have m: "0 \<le> manualRotation opts" using assms(3) by auto
  show ?thesis
    unfolding geometry_none[OF assms(1,4) m] Let_def
    using assms(2,3)
    by (elim insertE emptyE) (simp_all add: upright_def orientationRotation_def)
qed

text \<open>
  For the transposed codes 5 and 7 it is the other way round: lines 374-375 exchange
  width and height for every code from 5 to 8, and the \<^verbatim>\<open>switch\<close> of lines 417-424 turns
  by 0 degrees for 5 and 7.
\<close>

lemma mirrored_swap_against_net_rotation:
  assumes "decoded f = Some img"
    and "orientation opts \<in> {5, 7}"
    and "manualRotation opts \<in> {0, 90, 180, 270}"
    and "resizeMode opts = ''none''"
  shows "geometry (process toBlob f opts) =
     (let net = (orientationRotation (orientation opts) + manualRotation opts) mod 360
      in if net = 90 \<or> net = 270 then Some (width img, height img, net)
         else Some (height img, width img, net))"
proof -
  have m: "0 \<le> manualRotation opts" using assms(3) by auto
  show ?thesis
    unfolding geometry_none[OF assms(1,4) m] Let_def
    using assms(2,3)
    by (elim insertE emptyE) (simp_all add: upright_def orientationRotation_def)
qed

text \<open>
  C1. The claim: for every orientation code from 1 to 8 and every manual rotation, without
  resizing, the canvas has width and height exchanged exactly when the net rotation
  (orientation-rotation plus manual rotation, modulo 360) is 90 or 270. The code at
  orientation 5, manual rotation 0, on the 4000 by 3000 photograph: the net rotation is
  0, and the canvas is 3000 by 4000.
\<close>

theorem orientation5_swaps_without_rotation:
  "geometry (process toBlob photo_file (defaults\<lparr>orientation := 5\<rparr>)) = Some (3000, 4000, 0)"
  by (simp add: geometry_process[where img = photo] photo_file_def final_dims_none defaults_def
      upright_def photo_def total_deg_def exifDeg_def js_rem_def)

text \<open>
  There the image is drawn unrotated and stretched: with a net rotation of 0 the scale
  of lines 441-446 is \<^verbatim>\<open>finalW / img.width\<close> = 0.75 across and \<^verbatim>\<open>finalH / img.height\<close> =
  1.33 down, against the comment of line 451 (the two scales of a resize that keeps
  the aspect should be identical).
\<close>

lemma fl_zero: "fl 0 = 0"
  by (simp add: fl_def fl_mag_def)

lemma three_quarters: "fl (3 / 4) = 3 / 4"
  by (subst fl_eqI[where e = "- 1" and n = "3 * 2 ^ 51"]) (simp_all add: pow2_def)

lemma four_thirds: "fl (4 / 3) = 6004799503160661 / 2 ^ 52"
  by (subst fl_eqI[where e = 0 and n = 6004799503160661]) (simp_all add: pow2_def)

lemma orientation5_draws_stretched:
  "ops (draw photo (defaults\<lparr>orientation := 5\<rparr>)) ! 2 = Rotate 0
   \<and> ops (draw photo (defaults\<lparr>orientation := 5\<rparr>)) ! 3
       = Scale (3 / 4) (6004799503160661 / 2 ^ 52)"
proof -
  have d: "final_dims photo (defaults\<lparr>orientation := 5\<rparr>) = (3000, 4000)"
    by (simp add: final_dims_none defaults_def upright_def photo_def)
  have t: "total_deg (defaults\<lparr>orientation := 5\<rparr>) = 0"
    by (simp add: total_deg_def exifDeg_def js_rem_def defaults_def)
  have w: "width photo = 4000" "height photo = 3000" by (simp_all add: photo_def)
  show ?thesis
    by (simp add: draw_def d t w Let_def js_div_def js_mul_def fl_zero
        three_quarters four_thirds)
qed

lemma photo_fit_width_height: "math_round (js_mul (js_div 4000 3000) 800) = 1067"
proof (rule math_round_eqI)
  have u: "fl (fl (4000 / 3000) * 800) \<le> 4000 / 3000 * 800 * ((1 + eps) * (1 + eps))"
    by (rule fl2_upper) simp_all
  have l: "4000 / 3000 * 800 * ((1 - eps) * (1 - eps)) \<le> fl (fl (4000 / 3000) * 800)"
    by (rule fl2_lower) simp_all
  show "of_int 1067 - 1 / 2 \<le> js_mul (js_div 4000 3000) 800"
    using l by (simp add: js_mul_def js_div_def eps_def)
  show "js_mul (js_div 4000 3000) 800 < of_int 1067 + 1 / 2"
    using u by (simp add: js_mul_def js_div_def eps_def)
qed

lemma photo_fit_width_geometry:
  "geometry (process toBlob photo_file
      (defaults\<lparr>orientation := 6, resizeMode := ''width'', targetWidth := Num 800\<rparr>))
   = Some (800, 1067, 90)"
  by (simp add: geometry_process[where img = photo] photo_file_def final_dims_def resize_def
      defaults_def upright_def photo_def total_deg_def exifDeg_def js_rem_def Let_def
      math_round_numeral photo_fit_width_height)

text \<open>
  C2, as the code has it. The 4000 by 3000 photograph with orientation 6, no manual
  rotation and \<^verbatim>\<open>resizeMode\<close> \<^verbatim>\<open>'width'\<close> with target 800: the upright size is 3000 by 4000,
  the manual rotation exchanges nothing, and the canvas is 800 wide and
  \<^verbatim>\<open>Math.round((4000 / 3000) * 800)\<close> = 1067 high, with net rotation 90.
\<close>

theorem fit_width_800_gives_800x1067:
  "geometry (process toBlob photo_file
      (defaults\<lparr>orientation := 6, resizeMode := ''width'', targetWidth := Num 800\<rparr>))
   = Some (800, 1067, 90)"
  by (rule photo_fit_width_geometry)

text \<open>
  C2, as the claim states it: the canvas would be 800 by 600. It is not.
\<close>

theorem fit_width_800_not_800x600:
  "geometry (process linear_encoder photo_file
      (defaults\<lparr>orientation := 6, resizeMode := ''width'', targetWidth := Num 800\<rparr>))
   \<noteq> Some (800, 600, 90)"
  by (simp add: photo_fit_width_geometry)

text \<open>
  C10. An orientation value outside 3, 5, 6, 7, 8, whether a mirrored code (2, 4) or
  no code at all (0, 9, 99), gives the result of orientation 1, whatever the file and
  the other options.
\<close>

theorem orientation_outside_rotations_as_one:
  assumes "ori \<notin> {3, 5, 6, 7, 8}"
  shows "process toBlob f (opts\<lparr>orientation := ori\<rparr>) = process toBlob f (opts\<lparr>orientation := 1\<rparr>)"
proof -
  have t: "total_deg (opts\<lparr>orientation := ori\<rparr>) = total_deg (opts\<lparr>orientation := 1\<rparr>)"
    using assms by (intro total_deg_orientation) simp
  show ?thesis
    unfolding process_def
    by (simp add: draw_orientation[OF assms] t resolve_mime_orientation split: option.splits)
qed

theorem orientation_outside_rotations_as_one_witness:
  "(99::int) \<notin> {3, 5, 6, 7, 8}
   \<and> process linear_encoder photo_file (defaults\<lparr>orientation := 99\<rparr>)
     = process linear_encoder photo_file (defaults\<lparr>orientation := 1\<rparr>)"
proof -
  have h: "(99::int) \<notin> {3, 5, 6, 7, 8}" by simp
  show ?thesis using h orientation_outside_rotations_as_one[OF h] by blast
qed

section \<open>Resizing\<close>

lemma one_minus_eps_sq: "1 / 2 \<le> (1 - eps) * (1 - eps)"
  by (simp add: eps_def)

lemma min_fl_lower:
  assumes "0 \<le> a" "0 \<le> b" shows "min a b * (1 - eps) \<le> min (fl a) (fl b)"
proof -
  have "min a b * (1 - eps) \<le> a * (1 - eps)" "min a b * (1 - eps) \<le> b * (1 - eps)"
    using eps_bounds by (simp_all add: mult_right_mono)
  then show ?thesis using fl_lower[OF assms(1)] fl_lower[OF assms(2)] by simp
qed

lemma min_fl_upper:
  assumes "0 \<le> a" "0 \<le> b" shows "min (fl a) (fl b) \<le> min a b * (1 + eps)"
proof -
  have "min a b * (1 + eps) = min (a * (1 + eps)) (b * (1 + eps))"
    using eps_bounds by (simp add: min_mult_distrib_right)
  then show ?thesis using fl_upper[OF assms(1)] fl_upper[OF assms(2)] by (simp add: min_le_iff_disj)
qed

lemma fit_lower:
  assumes "0 \<le> a" "0 \<le> b" "0 \<le> c"
  shows "c * min a b * ((1 - eps) * (1 - eps)) \<le> fl (c * min (fl a) (fl b))"
proof -
  have m: "0 \<le> min (fl a) (fl b)" using assms by (simp add: fl_nonneg)
  have "c * (min a b * (1 - eps)) * (1 - eps) \<le> c * min (fl a) (fl b) * (1 - eps)"
    using min_fl_lower[OF assms(1,2)] assms(3) eps_bounds
    by (intro mult_right_mono mult_left_mono) simp_all
  also have "\<dots> \<le> fl (c * min (fl a) (fl b))"
    using m assms(3) by (intro fl_lower) simp
  finally show ?thesis by (simp add: mult_ac)
qed

lemma fit_upper:
  assumes "0 \<le> a" "0 \<le> b" "0 \<le> c"
  shows "fl (c * min (fl a) (fl b)) \<le> c * min a b * ((1 + eps) * (1 + eps))"
proof -
  have m: "0 \<le> min (fl a) (fl b)" using assms by (simp add: fl_nonneg)
  have "fl (c * min (fl a) (fl b)) \<le> c * min (fl a) (fl b) * (1 + eps)"
    using m assms(3) by (intro fl_upper) simp
  also have "\<dots> \<le> c * (min a b * (1 + eps)) * (1 + eps)"
    using min_fl_upper[OF assms(1,2)] assms(3) eps_bounds
    by (intro mult_right_mono mult_left_mono) simp_all
  finally show ?thesis by (simp add: mult_ac)
qed

lemma math_round_nonneg: "0 \<le> y \<Longrightarrow> 0 \<le> math_round y"
  by (simp add: math_round_def)

lemma math_round_pos: "1 / 2 \<le> y \<Longrightarrow> 0 < math_round y"
  unfolding math_round_def by linarith

lemma half_of_exact:
  assumes "1 \<le> x" and "x * ((1 - eps) * (1 - eps)) \<le> y" shows "1 / 2 \<le> y"
proof -
  have "1 * ((1 - eps) * (1 - eps)) \<le> x * ((1 - eps) * (1 - eps))"
    using assms(1) eps_bounds by (intro mult_right_mono) simp_all
  then show ?thesis using assms(2) one_minus_eps_sq by linarith
qed

lemma upright_pos:
  assumes "0 < width img" "0 < height img"
  shows "0 < fst (upright img opts)" "0 < snd (upright img opts)"
  using assms by (simp_all add: upright_def Let_def)

lemma positive_Num: "positive t \<Longrightarrow> \<exists>n. t = Num n \<and> 0 < n"
  by (cases t) (simp_all add: positive_def)

lemma final_dims_width:
  assumes "resizeMode opts = ''width''" "targetWidth opts = Num n" "n \<noteq> 0"
  shows "final_dims img opts =
    (n, math_round (fl (fl (of_int (snd (upright img opts)) / of_int (fst (upright img opts))) * of_int n)))"
  using assms by (simp add: final_dims_def resize_def Let_def math_round_of_int js_mul_def js_div_def)

lemma final_dims_height:
  assumes "resizeMode opts = ''height''" "targetHeight opts = Num n" "n \<noteq> 0"
  shows "final_dims img opts =
    (math_round (fl (fl (of_int (fst (upright img opts)) / of_int (snd (upright img opts))) * of_int n)), n)"
  using assms by (simp add: final_dims_def resize_def Let_def math_round_of_int js_mul_def js_div_def)

lemma final_dims_fit:
  assumes "resizeMode opts = ''both-fit''" "targetWidth opts = Num tw" "tw \<noteq> 0"
    "targetHeight opts = Num th" "th \<noteq> 0"
  shows "final_dims img opts =
    (math_round (fl (of_int (fst (upright img opts))
        * min (fl (of_int tw / of_int (fst (upright img opts))))
              (fl (of_int th / of_int (snd (upright img opts)))))),
     math_round (fl (of_int (snd (upright img opts))
        * min (fl (of_int tw / of_int (fst (upright img opts))))
              (fl (of_int th / of_int (snd (upright img opts)))))))"
  using assms by (simp add: final_dims_def resize_def Let_def js_mul_def js_div_def)

lemma final_dims_force:
  assumes "resizeMode opts = ''both-force''" "targetWidth opts = Num tw" "tw \<noteq> 0"
    "targetHeight opts = Num th" "th \<noteq> 0"
  shows "final_dims img opts = (tw, th)"
  using assms by (simp add: final_dims_def resize_def Let_def math_round_of_int)

lemma final_dims_other:
  assumes "resizeMode opts \<noteq> ''width''" "resizeMode opts \<noteq> ''height''"
    "resizeMode opts \<noteq> ''both-fit''" "resizeMode opts \<noteq> ''both-force''"
  shows "final_dims img opts = upright img opts"
  using assms by (simp add: final_dims_def resize_def Let_def math_round_of_int)

lemma final_dims_valid:
  assumes v: "valid_input img opts"
  shows "0 \<le> fst (final_dims img opts) \<and> 0 \<le> snd (final_dims img opts)
     \<and> (1 \<le> fst (exact_resize opts (upright img opts))
          \<and> 1 \<le> snd (exact_resize opts (upright img opts))
        \<longrightarrow> 0 < fst (final_dims img opts) \<and> 0 < snd (final_dims img opts))
     \<and> (resizeMode opts \<notin> {''width'', ''height'', ''both-fit''}
        \<longrightarrow> 0 < fst (final_dims img opts) \<and> 0 < snd (final_dims img opts))"
proof -
  define uw where "uw = fst (upright img opts)"
  define uh where "uh = snd (upright img opts)"
  have wh: "0 < width img" "0 < height img" using v by (simp_all add: valid_input_def)
  have uw: "0 < uw" and uh: "0 < uh"
    using upright_pos[OF wh, of opts] by (simp_all add: uw_def uh_def)
  have u: "upright img opts = (uw, uh)" by (simp add: uw_def uh_def)
  have ruw: "(0::rat) < of_int uw" and ruh: "(0::rat) < of_int uh" using uw uh by simp_all
  consider (width) "resizeMode opts = ''width''" | (height) "resizeMode opts = ''height''"
    | (fit) "resizeMode opts = ''both-fit''" | (force) "resizeMode opts = ''both-force''"
    | (other) "resizeMode opts \<noteq> ''width''" "resizeMode opts \<noteq> ''height''"
        "resizeMode opts \<noteq> ''both-fit''" "resizeMode opts \<noteq> ''both-force''"
    by blast
  then show ?thesis
  proof cases
    case width
    then have "positive (targetWidth opts)" using v by (simp add: valid_input_def)
    then obtain n where n: "targetWidth opts = Num n" "0 < n" using positive_Num by blast
    let ?y = "fl (fl (of_int uh / of_int uw) * of_int n)"
    have fd: "final_dims img opts = (n, math_round ?y)"
      using final_dims_width[OF width n(1), of img] n(2) by (simp add: u)
    have q: "(0::rat) \<le> of_int uh / of_int uw" using ruw ruh by simp
    have y0: "0 \<le> ?y" using q n(2) by (intro fl_nonneg mult_nonneg_nonneg) simp_all
    have lo: "of_int uh / of_int uw * of_int n * ((1 - eps) * (1 - eps)) \<le> ?y"
      using q n(2) by (intro fl2_lower) simp_all
    have ex: "snd (exact_resize opts (upright img opts)) = of_int uh / of_int uw * of_int n"
      by (simp add: exact_resize_def width u n(1) Let_def)
    have "1 \<le> snd (exact_resize opts (upright img opts)) \<longrightarrow> 0 < math_round ?y"
      unfolding ex using half_of_exact[OF _ lo] math_round_pos by blast
    then show ?thesis using n(2) y0 by (simp add: fd width math_round_nonneg)
  next
    case height
    then have "positive (targetHeight opts)" using v by (simp add: valid_input_def)
    then obtain n where n: "targetHeight opts = Num n" "0 < n" using positive_Num by blast
    let ?y = "fl (fl (of_int uw / of_int uh) * of_int n)"
    have fd: "final_dims img opts = (math_round ?y, n)"
      using final_dims_height[OF height n(1), of img] n(2) by (simp add: u)
    have q: "(0::rat) \<le> of_int uw / of_int uh" using ruw ruh by simp
    have y0: "0 \<le> ?y" using q n(2) by (intro fl_nonneg mult_nonneg_nonneg) simp_all
    have lo: "of_int uw / of_int uh * of_int n * ((1 - eps) * (1 - eps)) \<le> ?y"
      using q n(2) by (intro fl2_lower) simp_all
    have ex: "fst (exact_resize opts (upright img opts)) = of_int uw / of_int uh * of_int n"
      by (simp add: exact_resize_def height u n(1) Let_def)
    have "1 \<le> fst (exact_resize opts (upright img opts)) \<longrightarrow> 0 < math_round ?y"
      unfolding ex using half_of_exact[OF _ lo] math_round_pos by blast
    then show ?thesis using n(2) y0 by (simp add: fd height math_round_nonneg)
  next
    case fit
    then have "positive (targetWidth opts)" "positive (targetHeight opts)"
      using v by (simp_all add: valid_input_def)
    then obtain tw th where t: "targetWidth opts = Num tw" "0 < tw" "targetHeight opts = Num th" "0 < th"
      using positive_Num by blast
    let ?a = "of_int tw / of_int uw :: rat" and ?b = "of_int th / of_int uh :: rat"
    let ?yw = "fl (of_int uw * min (fl ?a) (fl ?b))"
    let ?yh = "fl (of_int uh * min (fl ?a) (fl ?b))"
    have fd: "final_dims img opts = (math_round ?yw, math_round ?yh)"
      using final_dims_fit[OF fit t(1) _ t(3), of img] t(2,4) by (simp add: u)
    have a: "0 \<le> ?a" and b: "0 \<le> ?b" using ruw ruh t(2,4) by simp_all
    have m: "0 \<le> min (fl ?a) (fl ?b)" using a b by (simp add: fl_nonneg)
    have yw0: "0 \<le> ?yw" using m ruw by (intro fl_nonneg mult_nonneg_nonneg) simp_all
    have yh0: "0 \<le> ?yh" using m ruh by (intro fl_nonneg mult_nonneg_nonneg) simp_all
    have low: "of_int uw * min ?a ?b * ((1 - eps) * (1 - eps)) \<le> ?yw"
      using a b ruw by (intro fit_lower) simp_all
    have loh: "of_int uh * min ?a ?b * ((1 - eps) * (1 - eps)) \<le> ?yh"
      using a b ruh by (intro fit_lower) simp_all
    have ex: "exact_resize opts (upright img opts) = (of_int uw * min ?a ?b, of_int uh * min ?a ?b)"
      by (simp add: exact_resize_def fit u t(1,3) Let_def)
    have "1 \<le> fst (exact_resize opts (upright img opts)) \<longrightarrow> 0 < math_round ?yw"
      unfolding ex fst_conv using half_of_exact[OF _ low] math_round_pos by blast
    moreover have "1 \<le> snd (exact_resize opts (upright img opts)) \<longrightarrow> 0 < math_round ?yh"
      unfolding ex snd_conv using half_of_exact[OF _ loh] math_round_pos by blast
    ultimately show ?thesis using yw0 yh0 by (simp add: fd fit math_round_nonneg)
  next
    case force
    then have "positive (targetWidth opts)" "positive (targetHeight opts)"
      using v by (simp_all add: valid_input_def)
    then obtain tw th where t: "targetWidth opts = Num tw" "0 < tw" "targetHeight opts = Num th" "0 < th"
      using positive_Num by blast
    have fd: "final_dims img opts = (tw, th)"
      using final_dims_force[OF force t(1) _ t(3), of img] t(2,4) by simp
    show ?thesis using t(2,4) by (simp add: fd)
  next
    case other
    have fd: "final_dims img opts = (uw, uh)"
      using final_dims_other[OF other, of img] by (simp add: u)
    show ?thesis using uw uh by (simp add: fd)
  qed
qed

text \<open>
  C3, as the code has it. For every valid input the canvas has a width and a height
  that are integers and not negative. They are positive whenever the size that the
  policy asks for in exact arithmetic is at least 1 in both directions, which is always
  so without resizing and with \<^verbatim>\<open>'both-force'\<close>. \<^verbatim>\<open>Math.round\<close> is applied to the scaled
  size with no lower limit, so a scaled size below one half becomes 0.
\<close>

theorem final_dims_nonnegative:
  assumes "decoded f = Some img" and "valid_input img opts"
  shows "\<exists>w h d. geometry (process toBlob f opts) = Some (w, h, d) \<and> 0 \<le> w \<and> 0 \<le> h
     \<and> (1 \<le> fst (exact_resize opts (upright img opts))
          \<and> 1 \<le> snd (exact_resize opts (upright img opts)) \<longrightarrow> 0 < w \<and> 0 < h)
     \<and> (resizeMode opts \<notin> {''width'', ''height'', ''both-fit''} \<longrightarrow> 0 < w \<and> 0 < h)"
  using final_dims_valid[OF assms(2)] by (simp add: geometry_process[OF assms(1)])

theorem final_dims_nonnegative_witness:
  "decoded photo_file = Some photo
   \<and> valid_input photo (defaults\<lparr>orientation := 6, resizeMode := ''width'', targetWidth := Num 800\<rparr>)
   \<and> geometry (process linear_encoder photo_file
        (defaults\<lparr>orientation := 6, resizeMode := ''width'', targetWidth := Num 800\<rparr>))
      = Some (800, 1067, 90)
   \<and> (0::int) \<le> 800 \<and> (0::int) \<le> 1067"
proof -
  let ?o = "defaults\<lparr>orientation := 6, resizeMode := ''width'', targetWidth := Num 800\<rparr>"
  have h1: "decoded photo_file = Some photo" by (simp add: photo_file_def)
  have h2: "valid_input photo ?o"
    by (simp add: valid_input_def photo_def defaults_def positive_def)
  have g: "geometry (process linear_encoder photo_file ?o) = Some (800, 1067, 90)"
    by (rule photo_fit_width_geometry)
  show ?thesis
    using h1 h2 g final_dims_nonnegative[where toBlob = linear_encoder, OF h1 h2] by simp
qed

lemma strip_height: "math_round (fl (fl (1 / 10000))) = 0"
proof (rule math_round_eqI)
  have u: "fl (fl (1 / 10000) * 1) \<le> 1 / 10000 * 1 * ((1 + eps) * (1 + eps))"
    by (rule fl2_upper) simp_all
  have l: "0 \<le> fl (fl (1 / 10000))"
    by (intro fl_nonneg) simp_all
  show "of_int 0 - 1 / 2 \<le> fl (fl (1 / 10000))" using l by simp
  show "fl (fl (1 / 10000)) < of_int 0 + 1 / 2" using u by (simp add: eps_def)
qed

lemma strip_valid: "valid_input strip (defaults\<lparr>resizeMode := ''width'', targetWidth := Num 1\<rparr>)"
  by (simp add: valid_input_def strip_def defaults_def positive_def)

lemma strip_geometry:
  "geometry (process toBlob strip_file (defaults\<lparr>resizeMode := ''width'', targetWidth := Num 1\<rparr>))
   = Some (1, 0, 0)"
proof -
  have d: "decoded strip_file = Some strip" by (simp add: strip_file_def)
  have u: "upright strip (defaults\<lparr>resizeMode := ''width'', targetWidth := Num 1\<rparr>) = (10000, 1)"
    by (simp add: upright_def strip_def defaults_def)
  have "final_dims strip (defaults\<lparr>resizeMode := ''width'', targetWidth := Num 1\<rparr>) = (1, 0)"
    by (subst final_dims_width[where n = 1]) (simp_all add: u strip_height)
  then show ?thesis
    by (simp add: geometry_process[OF d] total_deg_def exifDeg_def js_rem_def defaults_def)
qed

text \<open>
  C3, as the claim states it: width and height would always be positive. A strip of
  10000 by 1 pixels with \<^verbatim>\<open>resizeMode\<close> \<^verbatim>\<open>'width'\<close> and target 1 is a valid input, and its
  canvas is 1 wide and \<^verbatim>\<open>Math.round((1 / 10000) * 1)\<close> = 0 high.
\<close>

theorem strip_fit_width_height_zero:
  "valid_input strip (defaults\<lparr>resizeMode := ''width'', targetWidth := Num 1\<rparr>)
   \<and> geometry (process linear_encoder strip_file
        (defaults\<lparr>resizeMode := ''width'', targetWidth := Num 1\<rparr>)) = Some (1, 0, 0)"
  using strip_valid strip_geometry by simp

subsection \<open>Fitting a box\<close>

lemma eps_sq_upper: "(1 + eps) * (1 + eps) \<le> 1 + 3 * eps"
  by (simp add: eps_def)

lemma eps_sq_lower: "1 - 3 * eps \<le> (1 - eps) * (1 - eps)"
  by (simp add: eps_def)

lemma round_near:
  assumes "0 \<le> x" and "x \<le> 2 ^ 50"
    and lo: "x * ((1 - eps) * (1 - eps)) \<le> y" and hi: "y \<le> x * ((1 + eps) * (1 + eps))"
  shows "\<bar>of_int (math_round y) - x\<bar> < 1"
proof -
  define d where "d = x * (3 * eps)"
  have e: "d \<le> 3 / 8"
  proof -
    have "x * (3 * eps) \<le> 2 ^ 50 * (3 * eps)"
      using assms(2) eps_bounds by (intro mult_right_mono) simp_all
    then show ?thesis by (simp add: eps_def d_def)
  qed
  have "x * ((1 + eps) * (1 + eps)) \<le> x * (1 + 3 * eps)"
    using assms(1) eps_sq_upper by (intro mult_left_mono)
  also have "x * (1 + 3 * eps) = x + d" unfolding d_def by (simp only: distrib_left mult_1_right)
  finally have up: "y \<le> x + 3 / 8" using hi e by linarith
  have "x * (1 - 3 * eps) \<le> x * ((1 - eps) * (1 - eps))"
    using assms(1) eps_sq_lower by (intro mult_left_mono)
  moreover have "x * (1 - 3 * eps) = x - d"
    unfolding d_def by (simp only: right_diff_distrib mult_1_right)
  ultimately have dn: "x - 3 / 8 \<le> y" using lo e by linarith
  have "of_int \<lfloor>y + 1 / 2\<rfloor> \<le> y + 1 / 2" "y + 1 / 2 < of_int \<lfloor>y + 1 / 2\<rfloor> + 1"
    by linarith+
  then show ?thesis using up dn unfolding math_round_def by linarith
qed

lemma round_within:
  assumes "\<bar>of_int r - (x::rat)\<bar> < 1" and "x \<le> of_int t" shows "r \<le> t"
proof -
  have "(of_int r :: rat) < of_int t + 1" using assms by linarith
  then have "(of_int r :: rat) < of_int (t + 1)" by simp
  then have "r < t + 1" by (simp only: of_int_less_iff)
  then show ?thesis by simp
qed

lemma final_dims_fit_box:
  assumes wh: "0 < width img" "0 < height img"
    and fit: "resizeMode opts = ''both-fit''"
    and t: "targetWidth opts = Num tw" "targetHeight opts = Num th"
    and b: "0 < tw" "tw \<le> 2 ^ 50" "0 < th" "th \<le> 2 ^ 50"
  shows "fst (final_dims img opts) \<le> tw \<and> snd (final_dims img opts) \<le> th
     \<and> \<bar>of_int (fst (final_dims img opts)) - fst (exact_resize opts (upright img opts))\<bar> < 1
     \<and> \<bar>of_int (snd (final_dims img opts)) - snd (exact_resize opts (upright img opts))\<bar> < 1"
proof -
  define uw where "uw = fst (upright img opts)"
  define uh where "uh = snd (upright img opts)"
  have uw: "0 < uw" and uh: "0 < uh"
    using upright_pos[OF wh, of opts] by (simp_all add: uw_def uh_def)
  have u: "upright img opts = (uw, uh)" by (simp add: uw_def uh_def)
  have ruw: "(0::rat) < of_int uw" and ruh: "(0::rat) < of_int uh" using uw uh by simp_all
  let ?a = "of_int tw / of_int uw :: rat" and ?b = "of_int th / of_int uh :: rat"
  let ?yw = "fl (of_int uw * min (fl ?a) (fl ?b))"
  let ?yh = "fl (of_int uh * min (fl ?a) (fl ?b))"
  let ?xw = "of_int uw * min ?a ?b" and ?xh = "of_int uh * min ?a ?b"
  have fd: "final_dims img opts = (math_round ?yw, math_round ?yh)"
    using final_dims_fit[OF fit t(1) _ t(2), of img] b(1,3) by (simp add: u)
  have ex: "exact_resize opts (upright img opts) = (?xw, ?xh)"
    by (simp add: exact_resize_def fit u t Let_def)
  have a: "0 \<le> ?a" and b': "0 \<le> ?b" using ruw ruh b(1,3) by simp_all
  have m: "0 \<le> min ?a ?b" using a b' by simp
  have xw0: "0 \<le> ?xw" and xh0: "0 \<le> ?xh" using m ruw ruh by simp_all
  have "?xw \<le> of_int uw * ?a" using ruw by (intro mult_left_mono) simp_all
  then have xw: "?xw \<le> of_int tw" using ruw by simp
  have "?xh \<le> of_int uh * ?b" using ruh by (intro mult_left_mono) simp_all
  then have xh: "?xh \<le> of_int th" using ruh by simp
  have tw50: "(of_int tw :: rat) \<le> 2 ^ 50"
  proof -
    have "(of_int tw :: rat) \<le> of_int (2 ^ 50)" using b(2) by (simp only: of_int_le_iff)
    then show ?thesis by simp
  qed
  have th50: "(of_int th :: rat) \<le> 2 ^ 50"
  proof -
    have "(of_int th :: rat) \<le> of_int (2 ^ 50)" using b(4) by (simp only: of_int_le_iff)
    then show ?thesis by simp
  qed
  have nw: "\<bar>of_int (math_round ?yw) - ?xw\<bar> < 1"
  proof (rule round_near[OF xw0])
    show "?xw \<le> 2 ^ 50" using xw tw50 by linarith
    show "?xw * ((1 - eps) * (1 - eps)) \<le> ?yw" using a b' ruw by (intro fit_lower) simp_all
    show "?yw \<le> ?xw * ((1 + eps) * (1 + eps))" using a b' ruw by (intro fit_upper) simp_all
  qed
  have nh: "\<bar>of_int (math_round ?yh) - ?xh\<bar> < 1"
  proof (rule round_near[OF xh0])
    show "?xh \<le> 2 ^ 50" using xh th50 by linarith
    show "?xh * ((1 - eps) * (1 - eps)) \<le> ?yh" using a b' ruh by (intro fit_lower) simp_all
    show "?yh \<le> ?xh * ((1 + eps) * (1 + eps))" using a b' ruh by (intro fit_upper) simp_all
  qed
  show ?thesis
    unfolding fd ex fst_conv snd_conv
    using nw nh round_within[OF nw xw] round_within[OF nh xh] by blast
qed

text \<open>
  C4, as the code has it. For a source of positive size and targets from 1 to \<open>2^50\<close>,
  \<^verbatim>\<open>'both-fit'\<close> gives a canvas that is not wider than the target width and not higher
  than the target height, and each of its sides is less than one pixel away from the
  upright side scaled by the single factor \<open>min (tw / uprightW) (th / uprightH)\<close> in
  exact arithmetic.
\<close>

theorem fit_box_within_targets:
  assumes "decoded f = Some img" and "0 < width img" and "0 < height img"
    and "resizeMode opts = ''both-fit''"
    and "targetWidth opts = Num tw" and "targetHeight opts = Num th"
    and "0 < tw" and "tw \<le> 2 ^ 50" and "0 < th" and "th \<le> 2 ^ 50"
  shows "\<exists>w h d. geometry (process toBlob f opts) = Some (w, h, d) \<and> w \<le> tw \<and> h \<le> th
     \<and> \<bar>of_int w - fst (exact_resize opts (upright img opts))\<bar> < 1
     \<and> \<bar>of_int h - snd (exact_resize opts (upright img opts))\<bar> < 1"
  using final_dims_fit_box[OF assms(2-10)] by (simp add: geometry_process[OF assms(1)])

theorem fit_box_within_targets_witness:
  "decoded photo_file = Some photo \<and> 0 < width photo \<and> 0 < height photo
   \<and> resizeMode (defaults\<lparr>resizeMode := ''both-fit'', targetWidth := Num 800,
         targetHeight := Num 800\<rparr>) = ''both-fit''
   \<and> (0::int) < 800 \<and> (800::int) \<le> 2 ^ 50
   \<and> geometry (process linear_encoder photo_file
         (defaults\<lparr>resizeMode := ''both-fit'', targetWidth := Num 800, targetHeight := Num 800\<rparr>))
       = Some (800, 600, 0)"
proof -
  let ?o = "defaults\<lparr>resizeMode := ''both-fit'', targetWidth := Num 800, targetHeight := Num 800\<rparr>"
  have h1: "decoded photo_file = Some photo" by (simp add: photo_file_def)
  have h2: "0 < width photo" and h3: "0 < height photo" by (simp_all add: photo_def)
  have h4: "resizeMode ?o = ''both-fit''" by simp
  have h5: "targetWidth ?o = Num 800" and h6: "targetHeight ?o = Num 800" by simp_all
  have h7: "(0::int) < 800" and h8: "(800::int) \<le> 2 ^ 50" by simp_all
  have ex: "exact_resize ?o (upright photo ?o) = (800, 600)"
    by (simp add: exact_resize_def upright_def photo_def defaults_def Let_def)
  from fit_box_within_targets[where toBlob = linear_encoder, OF h1 h2 h3 h4 h5 h6 h7 h8 h7 h8]
  obtain w h d where g: "geometry (process linear_encoder photo_file ?o) = Some (w, h, d)"
    and w: "\<bar>rat_of_int w - 800\<bar> < 1" and h: "\<bar>rat_of_int h - 600\<bar> < 1"
    unfolding ex fst_conv snd_conv by blast
  have "\<bar>rat_of_int (w - 800)\<bar> < rat_of_int 1" using w by simp
  then have "\<bar>w - 800\<bar> < 1" by (simp only: of_int_less_iff flip: of_int_abs)
  then have w8: "w = 800" by simp
  have "\<bar>rat_of_int (h - 600)\<bar> < rat_of_int 1" using h by simp
  then have "\<bar>h - 600\<bar> < 1" by (simp only: of_int_less_iff flip: of_int_abs)
  then have h6': "h = 600" by simp
  have "d = 0"
    using g by (simp add: geometry_process[OF h1] total_deg_def exifDeg_def js_rem_def defaults_def)
  then show ?thesis using g w8 h6' h1 h2 h3 by simp
qed

lemma band_ratio: "fl (4147449528928972 / 1541) = 5511990029361801 / 2048"
  by (subst fl_eqI[where e = 41 and n = 5511990029361801]) (simp_all add: pow2_def)

lemma band_ratio_exact: "fl (5511990029361801 / 2048) = 5511990029361801 / 2048"
  by (subst fl_eqI[where e = 41 and n = 5511990029361801]) (simp_all add: pow2_def)

lemma band_width: "fl (8493976635246535341 / 2048) = 8294899057857945 / 2"
  by (subst fl_eqI[where e = 51 and n = 8294899057857945]) (simp_all add: pow2_def)

lemma band_min:
  "min (fl (4147449528928972 / 1541)) (fl 4147449528928972) = 5511990029361801 / 2048"
proof -
  have "4147449528928972 * (1 - eps) \<le> fl 4147449528928972" by (rule fl_lower) simp
  then have "5511990029361801 / 2048 \<le> fl 4147449528928972" by (simp add: eps_def)
  then show ?thesis by (simp add: band_ratio)
qed

lemma band_round_w: "math_round (8294899057857945 / 2) = 4147449528928973"
  by (rule math_round_eqI) simp_all

lemma band_round_h: "math_round (5511990029361801 / 2048) = 2691401381524"
  by (rule math_round_eqI) simp_all

lemma band_geometry:
  "geometry (process toBlob band_file
      (defaults\<lparr>resizeMode := ''both-fit'', targetWidth := Num 4147449528928972,
                targetHeight := Num 4147449528928972\<rparr>))
   = Some (4147449528928973, 2691401381524, 0)"
proof -
  let ?o = "defaults\<lparr>resizeMode := ''both-fit'', targetWidth := Num 4147449528928972,
                targetHeight := Num 4147449528928972\<rparr>"
  have d: "decoded band_file = Some band" by (simp add: band_file_def)
  have u: "upright band ?o = (1541, 1)"
    by (simp add: upright_def band_def defaults_def)
  have "final_dims band ?o = (4147449528928973, 2691401381524)"
    by (subst final_dims_fit[where tw = 4147449528928972 and th = 4147449528928972])
       (simp_all add: u band_min band_width band_ratio_exact band_round_w band_round_h)
  then show ?thesis
    by (simp add: geometry_process[OF d] total_deg_def exifDeg_def js_rem_def defaults_def)
qed

text \<open>
  C4, as the claim states it: for every positive integer target. From \<open>2^51\<close> on, the
  binary64 numbers are half a unit apart or more. A source 1541 wide and 1 high with both
  targets 4147449528928972: \<^verbatim>\<open>targetWidth / uprightW\<close> is rounded to
  5511990029361801 / 2048; 1541 times that is 4147449528928972.33..., which binary64
  rounds to 4147449528928972.5, and \<^verbatim>\<open>Math.round\<close> takes the tie up. The canvas is one
  pixel wider than the target.
\<close>

theorem fit_box_overshoots_huge_target:
  "geometry (process linear_encoder band_file
      (defaults\<lparr>resizeMode := ''both-fit'', targetWidth := Num 4147449528928972,
                targetHeight := Num 4147449528928972\<rparr>))
     = Some (4147449528928973, 2691401381524, 0)
   \<and> \<not> (4147449528928973::int) \<le> 4147449528928972"
  by (simp add: band_geometry)

section \<open>Missing targets\<close>

lemma resize_missing:
  "target_missing opts \<Longrightarrow> resize opts u = resize (opts\<lparr>resizeMode := ''none''\<rparr>) u"
  by (auto simp: target_missing_def resize_def Let_def)

lemma draw_missing:
  assumes "target_missing opts"
  shows "draw img opts = draw img (opts\<lparr>resizeMode := ''none''\<rparr>)"
proof -
  have u: "upright img (opts\<lparr>resizeMode := ''none''\<rparr>) = upright img opts"
    by (simp add: upright_def)
  have a: "final_dims img opts = final_dims img (opts\<lparr>resizeMode := ''none''\<rparr>)"
    by (simp add: final_dims_def u resize_missing[OF assms])
  have b: "total_deg (opts\<lparr>resizeMode := ''none''\<rparr>) = total_deg opts"
    by (simp add: total_deg_def)
  show ?thesis unfolding draw_def a b ..
qed

lemma returned_process:
  "decoded f = Some img \<Longrightarrow>
   returned (process toBlob f opts) =
     (case outcome (encode (toBlob (draw img opts) (resolve_mime f opts)) (resolve_mime f opts)
         (maxSizeBytes opts)) of Resolved b \<Rightarrow> Fulfilled b | NeverSettles \<Rightarrow> Pending)"
  by (simp add: returned_def process_def Let_def)

lemma qualities_process:
  "decoded f = Some img \<Longrightarrow>
   qualities (process toBlob f opts) =
     encodes (encode (toBlob (draw img opts) (resolve_mime f opts)) (resolve_mime f opts)
         (maxSizeBytes opts))"
  by (simp add: qualities_def process_def Let_def)

text \<open>
  C5, as the code has it. \<open>process\<close> has no error for a resize target: its promise is
  rejected only when the image does not load. When a resize policy is chosen and a target
  it needs is \<^verbatim>\<open>null\<close>, NaN or 0, the tests \<^verbatim>\<open>&& targetWidth\<close> and \<^verbatim>\<open>&& targetHeight\<close> of
  lines 386-397 fail, no resizing is done, and the call gives what it gives with
  \<^verbatim>\<open>resizeMode\<close> \<^verbatim>\<open>'none'\<close>.
\<close>

theorem missing_target_skips_resize:
  assumes "target_missing opts"
  shows "process toBlob f opts = process toBlob f (opts\<lparr>resizeMode := ''none''\<rparr>)
    \<and> (decoded f \<noteq> None \<longrightarrow> (\<exists>r. process toBlob f opts = Inr r))"
proof -
  have m: "resolve_mime f (opts\<lparr>resizeMode := ''none''\<rparr>) = resolve_mime f opts"
    by (simp add: resolve_mime_def)
  have t: "total_deg (opts\<lparr>resizeMode := ''none''\<rparr>) = total_deg opts"
    by (simp add: total_deg_def)
  have "process toBlob f opts = process toBlob f (opts\<lparr>resizeMode := ''none''\<rparr>)"
    by (simp add: process_def draw_missing[OF assms] m t split: option.splits)
  moreover have "decoded f \<noteq> None \<longrightarrow> (\<exists>r. process toBlob f opts = Inr r)"
    by (auto simp: process_def Let_def)
  ultimately show ?thesis by blast
qed

theorem missing_target_skips_resize_witness:
  "target_missing (defaults\<lparr>resizeMode := ''width''\<rparr>)
   \<and> process linear_encoder photo_file (defaults\<lparr>resizeMode := ''width''\<rparr>)
     = process linear_encoder photo_file (defaults\<lparr>resizeMode := ''width'', resizeMode := ''none''\<rparr>)"
proof -
  have h: "target_missing (defaults\<lparr>resizeMode := ''width''\<rparr>)"
    by (simp add: target_missing_def defaults_def)
  show ?thesis using h missing_target_skips_resize[OF h] by blast
qed

text \<open>
  C5, as the claim states it: such a call would fail before rendering. With
  \<^verbatim>\<open>resizeMode\<close> \<^verbatim>\<open>'width'\<close> and \<^verbatim>\<open>targetWidth\<close> \<^verbatim>\<open>null\<close> the promise is fulfilled with an
  encoding.
\<close>

theorem missing_target_returns_encoding:
  "target_missing (defaults\<lparr>resizeMode := ''width''\<rparr>)
   \<and> returned (process (flat_encoder 10) photo_file (defaults\<lparr>resizeMode := ''width''\<rparr>))
     = Fulfilled (Some (replicate 10 0))"
  by (simp add: target_missing_def returned_process[where img = photo] photo_file_def
      defaults_def encode_def flat_encoder_def)

section \<open>Encoding\<close>

lemma q095_less_1: "q095 < 1"
proof -
  have "fl (95 / 100) \<le> 95 / 100 * (1 + eps)" by (rule fl_upper) simp
  then show ?thesis by (simp add: q095_def eps_def)
qed

text \<open>
  C8, as the code has it. With no size ceiling (\<^verbatim>\<open>maxSizeBytes\<close> is \<^verbatim>\<open>null\<close>, NaN or 0) or
  with the MIME type \<^verbatim>\<open>image/png\<close>, the image is encoded exactly once, at quality 0.95
  (\<^verbatim>\<open>let quality = 0.95\<close>, line 462), and the promise is fulfilled with that encoding.
  0.95 is below the maximum quality 1.
\<close>

theorem single_encode_at_095:
  assumes "decoded f = Some img"
    and "\<not> truthy (maxSizeBytes opts) \<or> resolve_mime f opts = ''image/png''"
  shows "qualities (process toBlob f opts) = [q095]
    \<and> returned (process toBlob f opts)
        = Fulfilled (toBlob (draw img opts) (resolve_mime f opts) q095)
    \<and> q095 < 1"
  using assms by (auto simp: qualities_process returned_process encode_def q095_less_1)

theorem single_encode_at_095_witness:
  "decoded photo_file = Some photo
   \<and> \<not> truthy (maxSizeBytes defaults)
   \<and> qualities (process linear_encoder photo_file defaults) = [q095]
   \<and> returned (process linear_encoder photo_file defaults)
        = Fulfilled (linear_encoder (draw photo defaults) (resolve_mime photo_file defaults) q095)
   \<and> q095 < 1"
proof -
  have h1: "decoded photo_file = Some photo" by (simp add: photo_file_def)
  have h2: "\<not> truthy (maxSizeBytes defaults)" by (simp add: defaults_def)
  show ?thesis using h1 h2 single_encode_at_095[OF h1 disjI1[OF h2]] by blast
qed

text \<open>
  C8, as the claim states it: the one encode would be at maximum quality, which is 1.0
  in the specification. It is not.
\<close>

theorem single_encode_not_at_max_quality:
  "\<not> truthy (maxSizeBytes defaults)
   \<and> qualities (process linear_encoder photo_file defaults) \<noteq> [1]"
proof -
  have "qualities (process linear_encoder photo_file defaults) = [q095]"
    by (simp add: qualities_process[where img = photo] photo_file_def defaults_def encode_def)
  then show ?thesis using q095_less_1 by (simp add: defaults_def)
qed

text \<open>
  C7. With a size ceiling and the MIME type \<^verbatim>\<open>image/jpeg\<close>, the first encode is at quality
  1; when its size is within the ceiling, it is the only encode and the promise is
  fulfilled with it.
\<close>

theorem max_quality_within_ceiling_returns_at_once:
  assumes "decoded f = Some img"
    and "resolve_mime f opts = ''image/jpeg''"
    and "maxSizeBytes opts = Num n" and "n \<noteq> 0"
    and "toBlob (draw img opts) ''image/jpeg'' 1 = Some maxBlob"
    and "blob_size maxBlob \<le> of_int n"
  shows "qualities (process toBlob f opts) = [1]
    \<and> returned (process toBlob f opts) = Fulfilled (Some maxBlob)"
  using assms by (simp add: qualities_process returned_process encode_def add_encode_def)

theorem max_quality_within_ceiling_returns_at_once_witness:
  "decoded photo_file = Some photo
   \<and> resolve_mime photo_file (defaults\<lparr>maxSizeBytes := Num 2000\<rparr>) = ''image/jpeg''
   \<and> maxSizeBytes (defaults\<lparr>maxSizeBytes := Num 2000\<rparr>) = Num 2000 \<and> (2000::int) \<noteq> 0
   \<and> linear_encoder (draw photo (defaults\<lparr>maxSizeBytes := Num 2000\<rparr>)) ''image/jpeg'' 1
       = Some (replicate 1000 0)
   \<and> blob_size (replicate 1000 0) \<le> of_int 2000
   \<and> qualities (process linear_encoder photo_file (defaults\<lparr>maxSizeBytes := Num 2000\<rparr>)) = [1]
   \<and> returned (process linear_encoder photo_file (defaults\<lparr>maxSizeBytes := Num 2000\<rparr>))
       = Fulfilled (Some (replicate 1000 0))"
proof -
  have h1: "decoded photo_file = Some photo" by (simp add: photo_file_def)
  have h2: "resolve_mime photo_file (defaults\<lparr>maxSizeBytes := Num 2000\<rparr>) = ''image/jpeg''"
    by (simp add: resolve_mime_def defaults_def)
  have h3: "maxSizeBytes (defaults\<lparr>maxSizeBytes := Num 2000\<rparr>) = Num 2000" by simp
  have h4: "(2000::int) \<noteq> 0" by simp
  have h5: "linear_encoder (draw photo (defaults\<lparr>maxSizeBytes := Num 2000\<rparr>)) ''image/jpeg'' 1
       = Some (replicate 1000 0)"
    by (simp add: linear_encoder_def)
  have h6: "blob_size (replicate 1000 0) \<le> of_int 2000" by (simp add: blob_size_def)
  show ?thesis
    using h1 h2 h3 h4 h5 h6 max_quality_within_ceiling_returns_at_once[where toBlob = linear_encoder, OF h1 h2 h3 h4 h5 h6]
    by blast
qed

subsection \<open>The search\<close>

lemma length_bisect: "length (fst (bisect ok k lo hi best)) = k"
  by (induction k arbitrary: lo hi best) (simp_all add: Let_def)

lemma bisect_best:
  "snd (bisect ok k lo hi best) =
     (case filter ok (fst (bisect ok k lo hi best)) of [] \<Rightarrow> best | x # xs \<Rightarrow> Some (last (x # xs)))"
proof (induction k arbitrary: lo hi best)
  case 0
  then show ?case by simp
next
  case (Suc k)
  show ?case
    by (simp add: Let_def Suc.IH split: list.splits)
qed

lemma last_filter: "filter P xs \<noteq> [] \<Longrightarrow> P (last (filter P xs))"
  using last_in_set[of "filter P xs"] by auto

text \<open>
  The loop of the source, counting \<open>attempts\<close> up to 10 and keeping the best blob, does
  what \<open>bisect\<close> says, as long as every encode gives a blob.
\<close>

lemma search_bisect:
  assumes some: "\<forall>q. getBlob q \<noteq> None" and "10 - a = k" and "a \<le> 10"
  shows "search getBlob cap a lo hi (case bq of None \<Rightarrow> None | Some q \<Rightarrow> getBlob q) =
     (let r = bisect (fits getBlob cap) k lo hi bq
      in \<lparr>encodes = fst r @ (if snd r = None then [q001] else []),
          outcome = Resolved (getBlob (case snd r of None \<Rightarrow> q001 | Some q \<Rightarrow> q))\<rparr>)"
  using assms(2,3)
proof (induction k arbitrary: a lo hi bq)
  case 0
  then have a: "a = 10" by simp
  obtain b0 where b0: "getBlob q001 = Some b0" using some by auto
  show ?case
  proof (cases bq)
    case None
    then show ?thesis by (subst search.simps) (simp add: a b0)
  next
    case (Some q)
    obtain b where b: "getBlob q = Some b" using some by auto
    show ?thesis by (subst search.simps) (simp add: a Some b)
  qed
next
  case (Suc k)
  then have a: "a < 10" and k: "10 - (a + 1) = k" and a1: "a + 1 \<le> 10" by simp_all
  define mid where "mid = js_div (js_add lo hi) 2"
  obtain b where b: "getBlob mid = Some b" using some by auto
  show ?case
  proof (cases "blob_size b \<le> cap")
    case True
    have f: "fits getBlob cap mid" using True by (simp add: fits_def b)
    have "search getBlob cap a lo hi (case bq of None \<Rightarrow> None | Some q \<Rightarrow> getBlob q)
        = add_encode mid (search getBlob cap (a + 1) mid hi (Some b))"
      by (subst search.simps) (simp add: a b True flip: mid_def)
    also have "search getBlob cap (a + 1) mid hi (Some b)
        = search getBlob cap (a + 1) mid hi (case Some mid of None \<Rightarrow> None | Some q \<Rightarrow> getBlob q)"
      by (simp add: b)
    finally show ?thesis
      unfolding Suc.IH[OF k a1]
      by (simp add: add_encode_def Let_def f flip: mid_def)
  next
    case False
    have f: "\<not> fits getBlob cap mid" using False by (simp add: fits_def b)
    have "search getBlob cap a lo hi (case bq of None \<Rightarrow> None | Some q \<Rightarrow> getBlob q)
        = add_encode mid (search getBlob cap (a + 1) lo mid (case bq of None \<Rightarrow> None | Some q \<Rightarrow> getBlob q))"
      by (subst search.simps) (simp add: a b False flip: mid_def)
    then show ?thesis
      unfolding Suc.IH[OF k a1]
      by (simp add: add_encode_def Let_def f flip: mid_def)
  qed
qed

lemma encode_search:
  assumes some: "\<forall>q. getBlob q \<noteq> None"
    and "truthy maxSize" and "mime \<noteq> ''image/png''"
    and "getBlob 1 = Some maxBlob" and "num_of maxSize < blob_size maxBlob"
  shows "encode getBlob mime maxSize =
     (let probes = fst (bisect (fits getBlob (num_of maxSize)) 10 q001 1 None);
          met = filter (fits getBlob (num_of maxSize)) probes
      in \<lparr>encodes = 1 # probes @ (if met = [] then [q001] else []),
          outcome = Resolved (getBlob (if met = [] then q001 else last met))\<rparr>)"
proof -
  let ?r = "bisect (fits getBlob (num_of maxSize)) 10 q001 1 None"
  have s: "search getBlob (num_of maxSize) 0 q001 1 None =
      \<lparr>encodes = fst ?r @ (if snd ?r = None then [q001] else []),
       outcome = Resolved (getBlob (case snd ?r of None \<Rightarrow> q001 | Some q \<Rightarrow> q))\<rparr>"
    using search_bisect[OF some, where a = 0 and k = 10 and cap = "num_of maxSize" and lo = q001
        and hi = 1 and bq = None]
    by (simp add: Let_def)
  have b: "snd ?r = (case filter (fits getBlob (num_of maxSize)) (fst ?r) of
      [] \<Rightarrow> None | x # xs \<Rightarrow> Some (last (x # xs)))"
    by (rule bisect_best)
  show ?thesis
    using assms(2-5) unfolding encode_def s
    by (simp add: add_encode_def Let_def b split: list.splits)
qed

text \<open>
  C6. With a size ceiling, the MIME type \<^verbatim>\<open>image/jpeg\<close>, every encode giving a blob, and
  the encoding at quality 1 above the ceiling: the search makes exactly 10 probes, which
  are the midpoints of \<open>bisect\<close> started on the bounds 0.01 and 1 (a probe within the
  ceiling becomes the candidate and the lower bound, any other the upper bound) and
  lie between 0.01 and 1. The
  encodes of the call are the one at quality 1, the 10 probes and, when no probe was
  within the ceiling, one more at quality 0.01. The promise is fulfilled with the
  encoding of the last probe that was within the ceiling, whose size is within the
  ceiling, or with the encoding at quality 0.01 when there is none, whatever its size.
\<close>

theorem size_search_follows_bisection:
  assumes "decoded f = Some img"
    and "resolve_mime f opts = ''image/jpeg''"
    and "maxSizeBytes opts = Num n" and "n \<noteq> 0"
    and "\<forall>q. toBlob (draw img opts) ''image/jpeg'' q \<noteq> None"
    and "toBlob (draw img opts) ''image/jpeg'' 1 = Some maxBlob"
    and "of_int n < blob_size maxBlob"
  shows "let getBlob = toBlob (draw img opts) ''image/jpeg'';
             probes = fst (bisect (fits getBlob (of_int n)) 10 q001 1 None);
             met = filter (fits getBlob (of_int n)) probes
         in length probes = 10
          \<and> (\<forall>q \<in> set probes. q001 \<le> q \<and> q \<le> 1)
          \<and> qualities (process toBlob f opts) = 1 # probes @ (if met = [] then [q001] else [])
          \<and> returned (process toBlob f opts)
              = Fulfilled (getBlob (if met = [] then q001 else last met))
          \<and> (met \<noteq> [] \<longrightarrow> fits getBlob (of_int n) (last met))"
proof -
  let ?g = "toBlob (draw img opts) ''image/jpeg''"
  have e: "encode ?g ''image/jpeg'' (Num n) =
     (let probes = fst (bisect (fits ?g (num_of (Num n))) 10 q001 1 None);
          met = filter (fits ?g (num_of (Num n))) probes
      in \<lparr>encodes = 1 # probes @ (if met = [] then [q001] else []),
          outcome = Resolved (?g (if met = [] then q001 else last met))\<rparr>)"
    using assms(4,5,6,7) by (intro encode_search) simp_all
  show ?thesis
    using assms(1,2,3)
    by (simp add: qualities_process returned_process e Let_def length_bisect last_filter
        probes_in_range)
qed

text \<open>
  The witness is the fallback: an encoder of 100 bytes at every quality and a ceiling of
  10 bytes. The call encodes 12 times and the promise is fulfilled with 100 bytes.
\<close>

theorem size_search_follows_bisection_witness:
  "decoded photo_file = Some photo
   \<and> resolve_mime photo_file (defaults\<lparr>maxSizeBytes := Num 10\<rparr>) = ''image/jpeg''
   \<and> maxSizeBytes (defaults\<lparr>maxSizeBytes := Num 10\<rparr>) = Num 10 \<and> (10::int) \<noteq> 0
   \<and> (\<forall>q. flat_encoder 100 (draw photo (defaults\<lparr>maxSizeBytes := Num 10\<rparr>)) ''image/jpeg'' q \<noteq> None)
   \<and> flat_encoder 100 (draw photo (defaults\<lparr>maxSizeBytes := Num 10\<rparr>)) ''image/jpeg'' 1
       = Some (replicate 100 0)
   \<and> of_int 10 < blob_size (replicate 100 0)
   \<and> length (qualities (process (flat_encoder 100) photo_file (defaults\<lparr>maxSizeBytes := Num 10\<rparr>))) = 12
   \<and> returned (process (flat_encoder 100) photo_file (defaults\<lparr>maxSizeBytes := Num 10\<rparr>))
       = Fulfilled (Some (replicate 100 0))"
proof -
  let ?o = "defaults\<lparr>maxSizeBytes := Num 10\<rparr>"
  have h1: "decoded photo_file = Some photo" by (simp add: photo_file_def)
  have h2: "resolve_mime photo_file ?o = ''image/jpeg''"
    by (simp add: resolve_mime_def defaults_def)
  have h3: "maxSizeBytes ?o = Num 10" by simp
  have h4: "(10::int) \<noteq> 0" by simp
  have h5: "\<forall>q. flat_encoder 100 (draw photo ?o) ''image/jpeg'' q \<noteq> None"
    by (simp add: flat_encoder_def)
  have h6: "flat_encoder 100 (draw photo ?o) ''image/jpeg'' 1 = Some (replicate 100 0)"
    by (simp add: flat_encoder_def)
  have h7: "of_int 10 < blob_size (replicate 100 0)" by (simp add: blob_size_def)
  have never: "fits (flat_encoder 100 (draw photo ?o) ''image/jpeg'') (of_int 10) = (\<lambda>q. False)"
    by (rule ext) (simp add: fits_def flat_encoder_def blob_size_def)
  have c: "length (qualities (process (flat_encoder 100) photo_file ?o)) = 12
     \<and> returned (process (flat_encoder 100) photo_file ?o) = Fulfilled (Some (replicate 100 0))"
    using size_search_follows_bisection[where toBlob = "flat_encoder 100", OF h1 h2 h3 h4 h5 h6 h7]
    unfolding Let_def never by (simp add: flat_encoder_def)
  show ?thesis using h1 h2 h3 h4 h5 h6 h7 c by blast
qed

section \<open>Reading the orientation\<close>

lemma on_event_accepted: "accepted s \<Longrightarrow> on_event s e = s"
  by (cases e) (simp_all add: safeResolve_def)

lemma foldl_on_event_accepted: "accepted s \<Longrightarrow> foldl on_event s evs = s"
  by (induction evs) (simp_all add: on_event_accepted)

lemma executor_settled:
  "g \<noteq> Returns \<Longrightarrow>
   accepted (executor g) \<and> first_completion g evs = Some (hd (resolved (executor g)))
   \<and> resolved (executor g) = [hd (resolved (executor g))] \<and> timers (executor g) = [1500]"
  by (cases g) (simp_all add: executor_def safeResolve_def)

lemma executor_Returns:
  "executor Returns = \<lparr>accepted = False, resolved = [], timers = [1500]\<rparr>"
  by (simp add: executor_def)

lemma first_event_settles:
  "\<not> accepted s \<Longrightarrow> resolved s = [] \<Longrightarrow>
   accepted (on_event s e) \<and> resolved (on_event s e) = [case e of ExifLoaded tag \<Rightarrow> or_one tag | TimerFired \<Rightarrow> 1]
   \<and> timers (on_event s e) = timers s"
  by (cases e) (simp_all add: safeResolve_def)

lemma getOrientation_first:
  assumes "g \<noteq> Returns \<or> evs \<noteq> []"
  shows "\<exists>v. first_completion g evs = Some v \<and> resolved (getOrientation g evs) = [v]
    \<and> accepted (getOrientation g evs) \<and> timers (getOrientation g evs) = [1500]"
proof (cases "g = Returns")
  case False
  from executor_settled[OF False, of evs] show ?thesis
    by (auto simp: getOrientation_def foldl_on_event_accepted)
next
  case True
  with assms obtain e rest where evs: "evs = e # rest" by (cases evs) auto
  let ?s = "on_event (executor Returns) e"
  have s: "accepted ?s \<and> resolved ?s = [case e of ExifLoaded tag \<Rightarrow> or_one tag | TimerFired \<Rightarrow> 1]
      \<and> timers ?s = timers (executor Returns)"
    by (rule first_event_settles) (simp_all add: executor_Returns)
  have "getOrientation g evs = ?s"
    using s by (simp add: getOrientation_def True evs foldl_on_event_accepted)
  moreover have "first_completion g evs = Some (case e of ExifLoaded tag \<Rightarrow> or_one tag | TimerFired \<Rightarrow> 1)"
    by (cases e) (simp_all add: True evs)
  ultimately show ?thesis using s by (simp add: executor_Returns)
qed

lemma getOrientation_later:
  "accepted (getOrientation g evs) \<Longrightarrow> getOrientation g (evs @ later) = getOrientation g evs"
  by (simp add: getOrientation_def foldl_on_event_accepted)

lemma resolves_at_most_once: "length (resolved (getOrientation g evs)) \<le> 1"
proof (cases "g \<noteq> Returns \<or> evs \<noteq> []")
  case True
  from getOrientation_first[OF this] show ?thesis by auto
next
  case False
  then show ?thesis by (simp add: getOrientation_def executor_Returns)
qed

text \<open>
  C9. The timer of 1500 ms is registered in every run, so its event comes. Then
  \<^verbatim>\<open>resolve\<close> has been called exactly once, with the value of the first completion: 1
  after a throw, the tag (or 1 when there is none) after the callback, 1 when the timer
  comes first. Whatever comes later changes nothing. A tag from 1 to 8 is returned as it
  is, and a missing tag gives 1. The promise is never rejected: the executor has no
  \<^verbatim>\<open>reject\<close>.
\<close>

theorem getOrientation_resolves_once:
  assumes "TimerFired \<in> set evs"
  shows "\<exists>v. first_completion g evs = Some v
    \<and> resolved (getOrientation g evs) = [v]
    \<and> resolved (getOrientation g (evs @ later)) = [v]
    \<and> timers (getOrientation g evs) = [1500]
    \<and> (1 \<le> c \<and> c \<le> 8 \<longrightarrow> or_one (Some c) = c) \<and> or_one None = 1"
proof -
  have "g \<noteq> Returns \<or> evs \<noteq> []" using assms by auto
  from getOrientation_first[OF this] obtain v where
    v: "first_completion g evs = Some v" "resolved (getOrientation g evs) = [v]"
       "accepted (getOrientation g evs)" "timers (getOrientation g evs) = [1500]"
    by blast
  have "resolved (getOrientation g (evs @ later)) = [v]"
    using v(2,3) by (simp add: getOrientation_later)
  then show ?thesis using v by auto
qed

theorem getOrientation_resolves_once_witness:
  "TimerFired \<in> set [ExifLoaded (Some 6), TimerFired]
   \<and> first_completion Returns [ExifLoaded (Some 6), TimerFired] = Some 6
   \<and> resolved (getOrientation Returns [ExifLoaded (Some 6), TimerFired]) = [6]
   \<and> resolved (getOrientation Returns ([ExifLoaded (Some 6), TimerFired] @ [ExifLoaded (Some 3)])) = [6]
   \<and> timers (getOrientation Returns [ExifLoaded (Some 6), TimerFired]) = [1500]"
proof -
  have h: "TimerFired \<in> set [ExifLoaded (Some 6), TimerFired]" by simp
  show ?thesis
    using h getOrientation_resolves_once[OF h, of Returns "[ExifLoaded (Some 3)]" 6]
    by auto
qed

end
